theory Spec2Isabelle
  imports Main "HOL-Library.Word"
begin

section \<open>The session layer of game/net/core.py\<close>

text \<open>
  The module has two classes. \<open>NetManager\<close> is the session a consumer talks to
  (\<open>connect\<close>, \<open>disconnect\<close>, \<open>is_connected\<close>, \<open>send\<close>, \<open>recv\<close>);
  \<open>NetManagerThread\<close> is the background thread that establishes the connection and
  then reads frames. Everything outside the module is taken as the environment: the pickle
  module and the host name are parameters (\<open>platform\<close>), and what each socket call
  does (returns, or raises) is read from a script of answers (\<open>tape\<close>).
\<close>

subsection \<open>Exceptions\<close>

text \<open>
  The exception classes the handlers of the module tell apart. \<open>BlockingIOError\<close>,
  \<open>SocketTimeout\<close> (socket.timeout) and \<open>ConnectionResetError\<close> are subclasses of
  OSError; \<open>OtherOSError\<close> is any other OSError. \<open>StructError\<close> (struct.error),
  \<open>ValueError\<close>, \<open>UnpicklingError\<close> and \<open>OtherException\<close> derive from Exception
  but not from OSError. \<open>NonException\<close> is a BaseException that is not an Exception
  (SystemExit, KeyboardInterrupt): no handler of the module catches it.
\<close>

datatype exn =
    BlockingIOError | SocketTimeout | ConnectionResetError | OtherOSError
  | StructError | ValueError | UnpicklingError | OtherException
  | NonException

fun is_OSError :: "exn \<Rightarrow> bool" where
  "is_OSError BlockingIOError = True"
| "is_OSError SocketTimeout = True"
| "is_OSError ConnectionResetError = True"
| "is_OSError OtherOSError = True"
| "is_OSError _ = False"

fun is_Exception :: "exn \<Rightarrow> bool" where
  "is_Exception NonException = False"
| "is_Exception _ = True"

text \<open>What a call gives back to its caller: a value, or an exception on its way up.\<close>

datatype 'a result = Return 'a | Propagate exn

subsection \<open>Bytes and the struct module's format "i"\<close>

type_synonym byte = "8 word"

type_synonym bytes = "byte list"

text \<open>
  \<open>struct.pack("i", n)\<close> writes a 4-byte signed integer in the byte order of the
  machine, and raises struct.error when \<open>n\<close> does not fit; \<open>struct.unpack("i", b)\<close>
  raises struct.error unless \<open>b\<close> has exactly 4 bytes. The byte order is a parameter.
\<close>

datatype byteorder = LittleEndian | BigEndian

definition int_to_bytes :: "int \<Rightarrow> bytes" where
  "int_to_bytes u =
     [word_of_int u, word_of_int (u div 256), word_of_int (u div 65536),
      word_of_int (u div 16777216)]"

fun int_from_bytes :: "bytes \<Rightarrow> int" where
  "int_from_bytes [] = 0"
| "int_from_bytes (b # bs) = uint b + 256 * int_from_bytes bs"

definition native :: "byteorder \<Rightarrow> bytes \<Rightarrow> bytes" where
  "native bo bs = (case bo of LittleEndian \<Rightarrow> bs | BigEndian \<Rightarrow> rev bs)"

definition struct_pack_i :: "byteorder \<Rightarrow> int \<Rightarrow> exn + bytes" where
  "struct_pack_i bo n =
     (if - 2147483648 \<le> n \<and> n < 2147483648
      then Inr (native bo (int_to_bytes (n mod 4294967296)))
      else Inl StructError)"

definition struct_unpack_i :: "byteorder \<Rightarrow> bytes \<Rightarrow> exn + int" where
  "struct_unpack_i bo bs =
     (if length bs = 4
      then (let u = int_from_bytes (native bo bs)
            in Inr (if u < 2147483648 then u else u - 4294967296))
      else Inl StructError)"

subsection \<open>The platform: pickle, byte order, host name\<close>

text \<open>
  \<open>pickle.dumps\<close>, \<open>pickle.loads\<close> and \<open>socket.gethostname()\<close> are library
  code, not code of the module: they are parameters, and nothing is assumed of them
  unless a theorem says so.
\<close>

record 'v platform =
  byte_order :: byteorder
  pickle_dumps :: "'v \<Rightarrow> exn + bytes"
  pickle_loads :: "bytes \<Rightarrow> exn + 'v"
  gethostname :: string

text \<open>
  A concrete platform for evaluation: the values are the integers 0..255, pickled as
  CPython's protocol 4 pickles them (PROTO 4, BININT1 n, STOP: the five bytes
  80 04 4B n 2E). Like \<open>pickle.loads\<close>, \<open>int_loads\<close> stops at the STOP opcode and
  does not look at the bytes after it.
\<close>

definition int_dumps :: "nat \<Rightarrow> exn + bytes" where
  "int_dumps n = (if n < 256 then Inr [128, 4, 75, of_nat n, 46] else Inl OtherException)"

fun int_loads :: "bytes \<Rightarrow> exn + nat" where
  "int_loads (p # v # k # n # s # rest) =
     (if p = 128 \<and> v = 4 \<and> k = 75 \<and> s = 46 then Inr (unat n) else Inl UnpicklingError)"
| "int_loads _ = Inl UnpicklingError"

definition int_platform :: "nat platform" where
  "int_platform =
     \<lparr>byte_order = LittleEndian, pickle_dumps = int_dumps, pickle_loads = int_loads,
      gethostname = ''pc''\<rparr>"

subsection \<open>NetManager._pack_data (lines 48-51)\<close>

definition pack_data :: "'v platform \<Rightarrow> 'v \<Rightarrow> exn + bytes" where
  "pack_data P data =
     (case pickle_dumps P data of
        Inl e \<Rightarrow> Inl e
      | Inr b_data \<Rightarrow>
          (case struct_pack_i (byte_order P) (int (length b_data)) of
             Inl e \<Rightarrow> Inl e
           | Inr b_length \<Rightarrow> Inr (b_length @ b_data)))"

subsection \<open>The environment's answers\<close>

text \<open>
  Each library call that can fail takes the next answer of the tape: \<open>Raises e\<close>, or
  \<open>Returns bs\<close>. For \<open>recv\<close> the bytes of \<open>Returns bs\<close> are what the socket has
  buffered at that moment (\<open>[]\<close>: the peer has closed); for every other call they are
  not looked at. A tape that ends before the code does leaves the result open
  (\<open>None\<close>): the call would still be waiting.
\<close>

datatype answer = Returns bytes | Raises exn

type_synonym tape = "answer list"

text \<open>
  \<open>socket.recv(n)\<close>: at most \<open>n\<close> of the buffered bytes, the rest staying in the
  stream for the next read; ValueError for a negative \<open>n\<close>.
\<close>

fun sock_recv :: "int \<Rightarrow> tape \<Rightarrow> ((exn + bytes) \<times> tape) option" where
  "sock_recv n tape =
     (if n < 0 then Some (Inl ValueError, tape)
      else (case tape of
              [] \<Rightarrow> None
            | Raises e # tape' \<Rightarrow> Some (Inl e, tape')
            | Returns bs # tape' \<Rightarrow>
                Some (Inr (take (nat n) bs),
                      if length bs \<le> nat n then tape' else Returns (drop (nat n) bs) # tape')))"

text \<open>
  Lines 165-168, the body of the receive loop up to the decoded value: read the header,
  unpack it, read that many bytes in one call, unpickle what the call returned.
\<close>

definition recv_frame :: "'v platform \<Rightarrow> tape \<Rightarrow> ((exn + 'v) \<times> tape) option" where
  "recv_frame P tape =
     (case sock_recv 4 tape of
        None \<Rightarrow> None
      | Some (Inl e, tape1) \<Rightarrow> Some (Inl e, tape1)
      | Some (Inr b_length, tape1) \<Rightarrow>
          (case struct_unpack_i (byte_order P) b_length of
             Inl e \<Rightarrow> Some (Inl e, tape1)
           | Inr len \<Rightarrow>
               (case sock_recv len tape1 of
                  None \<Rightarrow> None
                | Some (Inl e, tape2) \<Rightarrow> Some (Inl e, tape2)
                | Some (Inr b_data, tape2) \<Rightarrow> Some (pickle_loads P b_data, tape2))))"

subsection \<open>Objects: threads, sockets, the session\<close>

text \<open>
  A socket is a handle; \<open>closed\<close> holds the handles on which \<open>close()\<close> has been
  called, so closing twice is closing once, as in Python. A thread object is an entry of
  \<open>threads\<close>, and its place in \<open>run\<close> is its \<open>th_pc\<close>: before the first
  statement, at the head of the accept loop (with \<open>self.server\<close>), at the head of the
  receive loop (with \<open>self.client\<close>), or over. \<open>th_died\<close> is the exception that ended
  the thread, if one did. The thread is alive from \<open>start()\<close> until \<open>run\<close> is over.
\<close>

type_synonym handle = nat

datatype pc = AtStart | AtAccept handle | AtLoop handle | Terminated

record thread =
  th_as_server :: bool
  th_host :: string
  th_port :: int
  th_callback :: nat
  th_pc :: pc
  th_died :: "exn option"

text \<open>
  What the program does to the outside, in order: the library calls of the connection
  set-up with what they raised (\<open>None\<close>: the call returned), the invocations of a
  connect callback with their argument, the sleeps and the log lines.
\<close>

datatype call =
    Socket | Bind handle string int | Listen handle nat | SetBlocking handle bool
  | SetTimeout handle | Accept handle | Connect handle string int | Sendall handle bytes

datatype log = ConnectFailed exn | SendFailed exn | RecvFailed exn | NotConnected
  | Waiting | ThreadExit

datatype event =
    Start nat
  | Called call "exn option"
  | Callback nat "exn option"
  | Sleep
  | Log log

text \<open>The fields of \<open>NetManager.__init__\<close> (lines 12-18).\<close>

record 'v NetManager =
  as_server :: bool
  host :: string
  port :: int
  listen_thread :: "nat option"
  stop_event :: bool
  client :: "handle option"
  data_queue :: "'v list"

record 'v world = "'v NetManager" +
  threads :: "thread list"
  sock_count :: nat
  closed :: "handle set"
  trace :: "event list"

definition emit :: "event \<Rightarrow> 'v world \<Rightarrow> 'v world" where
  "emit ev w = w\<lparr>trace := trace w @ [ev]\<rparr>"

definition new_sock :: "'v world \<Rightarrow> handle \<times> 'v world" where
  "new_sock w = (sock_count w, w\<lparr>sock_count := Suc (sock_count w)\<rparr>)"

definition close_sock :: "handle \<Rightarrow> 'v world \<Rightarrow> 'v world" where
  "close_sock h w = w\<lparr>closed := insert h (closed w)\<rparr>"

definition set_pc :: "nat \<Rightarrow> pc \<Rightarrow> 'v world \<Rightarrow> 'v world" where
  "set_pc i p w = w\<lparr>threads := (threads w)[i := (threads w ! i)\<lparr>th_pc := p\<rparr>]\<rparr>"

text \<open>The thread ends: \<open>run\<close> returns (\<open>None\<close>) or an exception leaves it.\<close>

definition die :: "nat \<Rightarrow> exn option \<Rightarrow> 'v world \<Rightarrow> 'v world" where
  "die i d w =
     w\<lparr>threads := (threads w)[i := (threads w ! i)\<lparr>th_pc := Terminated, th_died := d\<rparr>]\<rparr>"

definition is_alive :: "nat \<Rightarrow> 'v world \<Rightarrow> bool" where
  "is_alive i w = (i < length (threads w) \<and> th_pc (threads w ! i) \<noteq> Terminated)"

text \<open>
  A run of library calls, one after the other, up to the first that raises: each call
  made is recorded with its answer.
\<close>

fun try_calls :: "call list \<Rightarrow> tape \<Rightarrow> 'v world \<Rightarrow> (exn option \<times> tape \<times> 'v world) option" where
  "try_calls [] tape w = Some (None, tape, w)"
| "try_calls (c # cs) [] w = None"
| "try_calls (c # cs) (Raises e # tape) w = Some (Some e, tape, emit (Called c (Some e)) w)"
| "try_calls (c # cs) (Returns b # tape) w = try_calls cs tape (emit (Called c None) w)"

subsection \<open>NetManagerThread.run (lines 134-182)\<close>

text \<open>
  Lines 154-157, the handler of the set-up: an Exception is logged and handed to the
  callback (whose own answer is the next of the tape: it may raise), and \<open>run\<close>
  returns; anything else leaves \<open>run\<close> uncaught.
\<close>

definition conn_failed :: "nat \<Rightarrow> exn \<Rightarrow> tape \<Rightarrow> 'v world \<Rightarrow> (tape \<times> 'v world) option" where
  "conn_failed i e tape w =
     (if is_Exception e then
        (case tape of
           [] \<Rightarrow> None
         | a # tape' \<Rightarrow>
             (let w1 = emit (Callback (th_callback (threads w ! i)) (Some e))
                         (emit (Log (ConnectFailed e)) w)
              in Some (tape', die i (case a of Raises e' \<Rightarrow> Some e' | Returns b \<Rightarrow> None) w1)))
      else Some (tape, die i (Some e) w))"

text \<open>
  Lines 158-161, outside every \<open>try\<close>: configure the client socket, store it on the
  session, call the callback with \<open>None\<close>. Then the receive loop begins.
\<close>

definition established :: "nat \<Rightarrow> handle \<Rightarrow> tape \<Rightarrow> 'v world \<Rightarrow> (tape \<times> 'v world) option" where
  "established i h tape w =
     (case try_calls [SetBlocking h True, SetTimeout h] tape w of
        None \<Rightarrow> None
      | Some (Some e, tape1, w1) \<Rightarrow> Some (tape1, die i (Some e) w1)
      | Some (None, tape1, w1) \<Rightarrow>
          (case tape1 of
             [] \<Rightarrow> None
           | a # tape2 \<Rightarrow>
               (let w2 = emit (Callback (th_callback (threads w ! i)) None)
                           (w1\<lparr>client := Some h\<rparr>)
                in Some (tape2, case a of Raises e \<Rightarrow> die i (Some e) w2
                                        | Returns b \<Rightarrow> set_pc i (AtLoop h) w2))))"

text \<open>Lines 135-140 (listener) and 151-153 (initiator).\<close>

definition run_begin :: "nat \<Rightarrow> tape \<Rightarrow> 'v world \<Rightarrow> (tape \<times> 'v world) option" where
  "run_begin i tape w =
     (let t = threads w ! i in
      if th_as_server t then
        (case try_calls [Socket] tape w of
           None \<Rightarrow> None
         | Some (Some e, tape1, w1) \<Rightarrow> conn_failed i e tape1 w1
         | Some (None, tape1, w1) \<Rightarrow>
             (let (s, w2) = new_sock w1 in
              case try_calls [Bind s (th_host t) (th_port t), Listen s 3, SetBlocking s False]
                     tape1 w2 of
                None \<Rightarrow> None
              | Some (Some e, tape2, w3) \<Rightarrow> conn_failed i e tape2 w3
              | Some (None, tape2, w3) \<Rightarrow> Some (tape2, set_pc i (AtAccept s) w3)))
      else
        (case try_calls [Socket] tape w of
           None \<Rightarrow> None
         | Some (Some e, tape1, w1) \<Rightarrow> conn_failed i e tape1 w1
         | Some (None, tape1, w1) \<Rightarrow>
             (let (c, w2) = new_sock w1 in
              case try_calls [Connect c (th_host t) (th_port t)] tape1 w2 of
                None \<Rightarrow> None
              | Some (Some e, tape2, w3) \<Rightarrow> conn_failed i e tape2 w3
              | Some (None, tape2, w3) \<Rightarrow> established i c tape2 w3)))"

text \<open>
  Lines 141-150, one turn of the accept loop: the stop event is looked at first (when it
  is set the \<open>else\<close> of the \<open>while\<close> logs and returns); otherwise \<open>accept()\<close>
  either returns the client socket, or raises BlockingIOError (sleep, log, next turn), or
  raises something else, which the handler of line 154 gets.
\<close>

definition accept_iter :: "nat \<Rightarrow> handle \<Rightarrow> tape \<Rightarrow> 'v world \<Rightarrow> (tape \<times> 'v world) option" where
  "accept_iter i s tape w =
     (if stop_event w then Some (tape, die i None (emit (Log ThreadExit) w))
      else
        (case tape of
           [] \<Rightarrow> None
         | Returns b # tape' \<Rightarrow>
             (let (c, w1) = new_sock (emit (Called (Accept s) None) w)
              in established i c tape' w1)
         | Raises e # tape' \<Rightarrow>
             (let w1 = emit (Called (Accept s) (Some e)) w in
              if e = BlockingIOError then Some (tape', emit (Log Waiting) (emit Sleep w1))
              else conn_failed i e tape' w1)))"

text \<open>Lines 180-182, the \<open>finally\<close> of the receive loop; after it the thread is over.\<close>

definition cleanup :: "nat \<Rightarrow> handle \<Rightarrow> exn option \<Rightarrow> 'v world \<Rightarrow> 'v world" where
  "cleanup i h d w = die i d ((close_sock h w)\<lparr>client := None\<rparr>)"

text \<open>
  Lines 163-179, one turn of the receive loop. The handlers are tried in the order of the
  source: socket.timeout continues; ConnectionResetError and OSError break; any other
  Exception is logged and breaks; what is no Exception passes through the \<open>finally\<close>
  and leaves \<open>run\<close>. After a \<open>break\<close>, and when the stop event is found set, line 179
  logs the exit.
\<close>

definition recv_iter :: "'v platform \<Rightarrow> nat \<Rightarrow> handle \<Rightarrow> tape \<Rightarrow> 'v world \<Rightarrow> (tape \<times> 'v world) option" where
  "recv_iter P i h tape w =
     (if stop_event w then Some (tape, cleanup i h None (emit (Log ThreadExit) w))
      else
        (case recv_frame P tape of
           None \<Rightarrow> None
         | Some (Inr data, tape') \<Rightarrow> Some (tape', w\<lparr>data_queue := data_queue w @ [data]\<rparr>)
         | Some (Inl e, tape') \<Rightarrow>
             if e = SocketTimeout then Some (tape', w)
             else if e = ConnectionResetError then
               Some (tape', cleanup i h None (emit (Log ThreadExit) w))
             else if is_OSError e then
               Some (tape', cleanup i h None (emit (Log ThreadExit) w))
             else if is_Exception e then
               Some (tape', cleanup i h None (emit (Log ThreadExit) (emit (Log (RecvFailed e)) w)))
             else Some (tape', cleanup i h (Some e) w)))"

text \<open>One step of thread \<open>i\<close>: the block of \<open>run\<close> its \<open>th_pc\<close> stands at.\<close>

definition thread_step :: "'v platform \<Rightarrow> nat \<Rightarrow> tape \<Rightarrow> 'v world \<Rightarrow> (tape \<times> 'v world) option" where
  "thread_step P i tape w =
     (case th_pc (threads w ! i) of
        AtStart \<Rightarrow> run_begin i tape w
      | AtAccept s \<Rightarrow> accept_iter i s tape w
      | AtLoop h \<Rightarrow> recv_iter P i h tape w
      | Terminated \<Rightarrow> Some (tape, w))"

text \<open>The size of a tape: every step of a live thread takes from it, or ends the thread.\<close>

fun asize :: "answer \<Rightarrow> nat" where
  "asize (Returns bs) = Suc (length bs)"
| "asize (Raises e) = 1"

definition tsize :: "tape \<Rightarrow> nat" where
  "tsize tape = sum_list (map asize tape)"

lemma tsize_simps [simp]:
  "tsize [] = 0" "tsize (a # tape) = asize a + tsize tape"
  by (simp_all add: tsize_def)

lemma asize_pos [simp]: "0 < asize a"
  by (cases a) simp_all

lemma threads_emit [simp]: "threads (emit ev w) = threads w"
  by (simp add: emit_def)

lemma is_alive_emit [simp]: "is_alive i (emit ev w) = is_alive i w"
  by (simp add: is_alive_def)

lemma is_alive_die [simp]: "i < length (threads w) \<Longrightarrow> \<not> is_alive i (die i d w)"
  by (simp add: is_alive_def die_def)

lemma try_calls_tape:
  "try_calls cs tape w = Some (r, tape', w') \<Longrightarrow>
     threads w' = threads w \<and> tsize tape' \<le> tsize tape \<and> (cs \<noteq> [] \<longrightarrow> tsize tape' < tsize tape)"
proof (induction cs tape w rule: try_calls.induct)
  case (4 c cs b tape w)
  then show ?case by (cases cs) (fastforce)+
qed auto

lemma conn_failed_tape:
  "conn_failed i e tape w = Some (tape', w') \<Longrightarrow> tsize tape' \<le> tsize tape"
  by (auto simp: conn_failed_def Let_def split: if_splits list.splits)

lemma conn_failed_dead:
  "conn_failed i e tape w = Some (tape', w') \<Longrightarrow> i < length (threads w) \<Longrightarrow> \<not> is_alive i w'"
  by (auto simp: conn_failed_def Let_def split: if_splits list.splits)

lemma established_tape:
  "established i h tape w = Some (tape', w') \<Longrightarrow> tsize tape' < tsize tape"
  by (auto simp: established_def Let_def split: option.splits list.splits dest!: try_calls_tape)

lemma run_begin_tape:
  "run_begin i tape w = Some (tape', w') \<Longrightarrow> tsize tape' < tsize tape"
  by (auto simp: run_begin_def Let_def new_sock_def split: option.splits if_splits
       dest!: try_calls_tape conn_failed_tape established_tape)

lemma accept_iter_tape:
  "accept_iter i s tape w = Some (tape', w') \<Longrightarrow> i < length (threads w) \<Longrightarrow>
     tsize tape' < tsize tape \<or> (tsize tape' \<le> tsize tape \<and> \<not> is_alive i w')"
  by (auto simp: accept_iter_def Let_def new_sock_def
       split: if_splits list.splits answer.splits
       dest!: conn_failed_tape established_tape)

lemma sock_recv_tape:
  "sock_recv n tape = Some (r, tape') \<Longrightarrow>
     tsize tape' \<le> tsize tape \<and> (0 < n \<longrightarrow> tsize tape' < tsize tape)"
  by (auto split: if_splits list.splits answer.splits)

lemma recv_frame_tape:
  assumes "recv_frame P tape = Some (r, tape')"
  shows "tsize tape' < tsize tape"
proof -
  from assms obtain r1 tape1 where first: "sock_recv 4 tape = Some (r1, tape1)"
    by (auto simp: recv_frame_def simp del: sock_recv.simps split: option.splits)
  from sock_recv_tape [OF first] have less: "tsize tape1 < tsize tape" by simp
  show ?thesis
  proof (cases "tape' = tape1")
    case True
    with less show ?thesis by simp
  next
    case False
    with assms first obtain len r2 where "sock_recv len tape1 = Some (r2, tape')"
      by (auto simp: recv_frame_def simp del: sock_recv.simps
            split: option.splits sum.splits)
    from sock_recv_tape [OF this] less show ?thesis by simp
  qed
qed

lemma recv_iter_tape:
  "recv_iter P i h tape w = Some (tape', w') \<Longrightarrow> i < length (threads w) \<Longrightarrow>
     tsize tape' < tsize tape \<or> (tsize tape' \<le> tsize tape \<and> \<not> is_alive i w')"
  by (auto simp: recv_iter_def cleanup_def close_sock_def
       split: if_splits option.splits sum.splits dest!: recv_frame_tape)

lemma thread_step_tape:
  assumes "thread_step P i tape w = Some (tape', w')" "is_alive i w"
  shows "tsize tape' < tsize tape \<or> (tsize tape' \<le> tsize tape \<and> \<not> is_alive i w')"
proof -
  from assms(2) have i: "i < length (threads w)" by (simp add: is_alive_def)
  show ?thesis
  proof (cases "th_pc (threads w ! i)")
    case AtStart
    with assms show ?thesis by (auto simp: thread_step_def dest: run_begin_tape)
  next
    case (AtAccept s)
    with assms i show ?thesis by (auto simp: thread_step_def dest: accept_iter_tape)
  next
    case (AtLoop h)
    with assms i show ?thesis by (auto simp: thread_step_def dest: recv_iter_tape)
  next
    case Terminated
    with assms show ?thesis by (simp add: is_alive_def)
  qed
qed

text \<open>
  \<open>run\<close> from where thread \<open>i\<close> stands to its end. \<open>None\<close>: the tape ended first,
  the thread would still be running.
\<close>

function run :: "'v platform \<Rightarrow> nat \<Rightarrow> tape \<Rightarrow> 'v world \<Rightarrow> (tape \<times> 'v world) option" where
  "run P i tape w =
     (if is_alive i w then
        (case thread_step P i tape w of
           None \<Rightarrow> None
         | Some (tape', w') \<Rightarrow> run P i tape' w')
      else Some (tape, w))"
  by pat_completeness auto

termination
proof (relation "measure (\<lambda>(P, i, tape, w). 2 * tsize tape + (if is_alive i w then 1 else 0))")
  fix P :: "'v platform" and i tape and w :: "'v world" and x2 tape' w'
  assume "is_alive i w" "thread_step P i tape w = Some x2" "(tape', w') = x2"
  then have "tsize tape' < tsize tape \<or> (tsize tape' \<le> tsize tape \<and> \<not> is_alive i w')"
    using thread_step_tape [of P i tape w tape' w'] by simp
  then show "((P, i, tape', w'), P, i, tape, w)
       \<in> measure (\<lambda>(P, i, tape, w). 2 * tsize tape + (if is_alive i w then 1 else 0))"
    using \<open>is_alive i w\<close> by auto
qed simp

subsection \<open>NetManager (lines 10-73)\<close>

text \<open>
  \<open>__init__\<close>: an argument left out is \<open>None\<close> here. A host of \<open>None\<close> becomes
  \<open>socket.gethostname()\<close>, a port left out is 11111.
\<close>

definition init :: "'v platform \<Rightarrow> bool \<Rightarrow> string option \<Rightarrow> int option \<Rightarrow> 'v world" where
  "init P as_srv host_arg port_arg =
     \<lparr>as_server = as_srv,
      host = (case host_arg of Some h \<Rightarrow> h | None \<Rightarrow> gethostname P),
      port = (case port_arg of Some p \<Rightarrow> p | None \<Rightarrow> 11111),
      listen_thread = None, stop_event = False, client = None, data_queue = [],
      threads = [], sock_count = 0, closed = {}, trace = []\<rparr>"

text \<open>
  \<open>connect\<close> (lines 24-34): unless the session's thread is alive, a new thread object
  is made from the session's role, host and port and the callback (a number names it),
  stored and started.
\<close>

definition connect :: "nat \<Rightarrow> 'v world \<Rightarrow> 'v world" where
  "connect cb w =
     (if (case listen_thread w of None \<Rightarrow> True | Some i \<Rightarrow> \<not> is_alive i w) then
        (let i = length (threads w) in
         emit (Start i)
           (w\<lparr>threads := threads w @
                 [\<lparr>th_as_server = as_server w, th_host = host w, th_port = port w,
                   th_callback = cb, th_pc = AtStart, th_died = None\<rparr>],
              listen_thread := Some i\<rparr>))
      else w)"

text \<open>
  \<open>disconnect\<close> (lines 37-41): set the stop event, close the client socket if the
  session holds one, join the thread if it is alive. Joining is running the thread to
  its end.
\<close>

definition disconnect :: "'v platform \<Rightarrow> tape \<Rightarrow> 'v world \<Rightarrow> (tape \<times> 'v world) option" where
  "disconnect P tape w =
     (let w1 = w\<lparr>stop_event := True\<rparr>;
          w2 = (case client w1 of None \<Rightarrow> w1 | Some h \<Rightarrow> close_sock h w1)
      in case listen_thread w2 of
           None \<Rightarrow> Some (tape, w2)
         | Some i \<Rightarrow> if is_alive i w2 then run P i tape w2 else Some (tape, w2))"

definition is_connected :: "'v world \<Rightarrow> bool" where
  "is_connected w = (case client w of None \<Rightarrow> False | Some h \<Rightarrow> True)"

text \<open>
  \<open>send\<close> (lines 61-68). The value returned is a Python value: \<open>Some n\<close> for the
  integer \<open>n\<close>, \<open>None\<close> for Python's None, which a function returns when it ends
  without a \<open>return\<close>. Lines 67-68 catch an Exception and log it; there is no
  \<open>return\<close> after the log line.
\<close>

definition send_except :: "exn \<Rightarrow> tape \<Rightarrow> 'v world \<Rightarrow> int option result \<times> tape \<times> 'v world" where
  "send_except e tape w =
     (if is_Exception e then (Return None, tape, emit (Log (SendFailed e)) w)
      else (Propagate e, tape, w))"

definition send :: "'v platform \<Rightarrow> 'v \<Rightarrow> tape \<Rightarrow> 'v world \<Rightarrow> (int option result \<times> tape \<times> 'v world) option" where
  "send P data tape w =
     (case client w of
        None \<Rightarrow> Some (Return (Some 1), tape, emit (Log NotConnected) w)
      | Some h \<Rightarrow>
          (case pack_data P data of
             Inl e \<Rightarrow> Some (send_except e tape w)
           | Inr frame \<Rightarrow>
               (case tape of
                  [] \<Rightarrow> None
                | Returns b # tape' \<Rightarrow>
                    Some (Return (Some 0), tape', emit (Called (Sendall h frame) None) w)
                | Raises e # tape' \<Rightarrow>
                    Some (send_except e tape' (emit (Called (Sendall h frame) (Some e)) w)))))"

text \<open>\<open>recv\<close> (lines 71-73): the oldest value of the queue, or None.\<close>

definition recv :: "'v world \<Rightarrow> 'v option \<times> 'v world" where
  "recv w = (case data_queue w of [] \<Rightarrow> (None, w) | x # xs \<Rightarrow> (Some x, w\<lparr>data_queue := xs\<rparr>))"

subsection \<open>Schedules\<close>

text \<open>
  The consumer's calls and the steps of the threads, in any order: an interleaving of the
  two is a list of operations. A call of the consumer and a step of a thread (the set-up,
  or one turn of a loop) are atomic, and the join inside \<open>disconnect\<close> runs the thread
  to its end. What another thread does in the middle of a step (closing the socket under a
  blocked read, say) shows only as the answer the environment gives to the call.
\<close>

datatype 'v op = DoConnect nat | DoDisconnect | DoIsConnected | DoSend 'v | DoRecv | DoStep nat

fun apply_op :: "'v platform \<Rightarrow> 'v op \<Rightarrow> tape \<Rightarrow> 'v world \<Rightarrow> (tape \<times> 'v world) option" where
  "apply_op P (DoConnect cb) tape w = Some (tape, connect cb w)"
| "apply_op P DoDisconnect tape w = disconnect P tape w"
| "apply_op P DoIsConnected tape w = Some (tape, w)"
| "apply_op P (DoSend data) tape w =
     (case send P data tape w of None \<Rightarrow> None | Some (r, tape', w') \<Rightarrow> Some (tape', w'))"
| "apply_op P DoRecv tape w = Some (tape, snd (recv w))"
| "apply_op P (DoStep i) tape w =
     (if is_alive i w then thread_step P i tape w else Some (tape, w))"

fun exec :: "'v platform \<Rightarrow> 'v op list \<Rightarrow> tape \<Rightarrow> 'v world \<Rightarrow> (tape \<times> 'v world) option" where
  "exec P [] tape w = Some (tape, w)"
| "exec P (a # as) tape w =
     (case apply_op P a tape w of None \<Rightarrow> None | Some (tape', w') \<Rightarrow> exec P as tape' w')"

section \<open>What is observed of a run\<close>

text \<open>
  The properties below are stated on the events of a run. \<open>callbacks\<close> are the
  invocations of a connect callback, each with the callback's name and its argument;
  \<open>raised\<close> are the exceptions the library calls of the set-up raised;
  \<open>is_established\<close> marks a call of \<open>accept\<close> or \<open>connect\<close> that returned a
  socket, \<open>is_accept\<close> every call of \<open>accept\<close>, \<open>is_log\<close> the log lines.
\<close>

fun callback_of :: "event \<Rightarrow> (nat \<times> exn option) list" where
  "callback_of (Callback c a) = [(c, a)]"
| "callback_of _ = []"

definition callbacks :: "event list \<Rightarrow> (nat \<times> exn option) list" where
  "callbacks evs = concat (map callback_of evs)"

fun raised_of :: "event \<Rightarrow> exn list" where
  "raised_of (Called c (Some e)) = [e]"
| "raised_of _ = []"

definition raised :: "event list \<Rightarrow> exn list" where
  "raised evs = concat (map raised_of evs)"

fun is_established :: "event \<Rightarrow> bool" where
  "is_established (Called (Accept s) None) = True"
| "is_established (Called (Connect c h p) None) = True"
| "is_established _ = False"

fun is_accept :: "event \<Rightarrow> bool" where
  "is_accept (Called (Accept s) r) = True"
| "is_accept _ = False"

fun is_log :: "event \<Rightarrow> bool" where
  "is_log (Log l) = True"
| "is_log _ = False"

text \<open>
  What the events of one connect attempt may be, for the callback \<open>cb\<close>: a connection
  was established once and the callback got None; or none was, and the callback got an
  exception that a call raised; or none was, the callback was not invoked, and \<open>coop\<close>
  holds (the cooperative shutdown).
\<close>

definition cb_outcome :: "nat \<Rightarrow> bool \<Rightarrow> event list \<Rightarrow> bool" where
  "cb_outcome cb coop evs =
     (length (filter is_established evs) = 1 \<and> callbacks evs = [(cb, None)]
      \<or> filter is_established evs = []
          \<and> (\<exists>e. callbacks evs = [(cb, Some e)] \<and> e \<in> set (raised evs))
      \<or> filter is_established evs = [] \<and> callbacks evs = [] \<and> coop)"

text \<open>
  \<open>addr_ok a\<close> holds of an event unless it is a \<open>bind\<close> or a \<open>connect\<close> to an
  address other than \<open>a\<close>; \<open>addr_inv a\<close> says that the session, all its thread
  objects and all events so far carry the address \<open>a\<close>. \<open>answer_exn\<close> is what an answer
  of the environment raises.
\<close>

fun addr_ok :: "string \<times> int \<Rightarrow> event \<Rightarrow> bool" where
  "addr_ok a (Called (Bind s h p) r) = ((h, p) = a)"
| "addr_ok a (Called (Connect c h p) r) = ((h, p) = a)"
| "addr_ok a _ = True"

fun call_ok :: "string \<times> int \<Rightarrow> call \<Rightarrow> bool" where
  "call_ok a (Bind s h p) = ((h, p) = a)"
| "call_ok a (Connect c h p) = ((h, p) = a)"
| "call_ok a _ = True"

definition addr_inv :: "string \<times> int \<Rightarrow> 'v world \<Rightarrow> bool" where
  "addr_inv a w \<longleftrightarrow>
     (host w, port w) = a
     \<and> list_all (\<lambda>t. (th_host t, th_port t) = a) (threads w)
     \<and> list_all (addr_ok a) (trace w)"

fun answer_exn :: "answer \<Rightarrow> exn option" where
  "answer_exn (Returns b) = None"
| "answer_exn (Raises e) = Some e"

text \<open>
  \<open>keeps i w w'\<close>: what the steps of thread \<open>i\<close> leave as it is between \<open>w\<close> and
  \<open>w'\<close>. The session's role, address, thread reference and stop event, every other
  thread object, and the role, address and callback of thread \<open>i\<close> are the same; no
  socket is reopened; the events are extended, and by events with the thread's address.
\<close>

definition keeps :: "nat \<Rightarrow> 'v world \<Rightarrow> 'v world \<Rightarrow> bool" where
  "keeps i w w' \<longleftrightarrow>
     as_server w' = as_server w \<and> host w' = host w \<and> port w' = port w
     \<and> listen_thread w' = listen_thread w \<and> stop_event w' = stop_event w
     \<and> length (threads w') = length (threads w)
     \<and> (\<forall>j. j \<noteq> i \<longrightarrow> threads w' ! j = threads w ! j)
     \<and> th_as_server (threads w' ! i) = th_as_server (threads w ! i)
     \<and> th_host (threads w' ! i) = th_host (threads w ! i)
     \<and> th_port (threads w' ! i) = th_port (threads w ! i)
     \<and> th_callback (threads w' ! i) = th_callback (threads w ! i)
     \<and> closed w \<subseteq> closed w'
     \<and> (\<exists>evs. trace w' = trace w @ evs
            \<and> list_all (addr_ok (th_host (threads w ! i), th_port (threads w ! i))) evs)"

text \<open>
  \<open>live_threads\<close> are the thread objects that are alive; \<open>one_live_thread\<close> says
  that every live thread is the one the session's \<open>_listen_thread\<close> refers to, so
  there is at most one.
\<close>

definition live_threads :: "'v world \<Rightarrow> nat list" where
  "live_threads w = filter (\<lambda>j. is_alive j w) [0..<length (threads w)]"

definition one_live_thread :: "'v world \<Rightarrow> bool" where
  "one_live_thread w = list_all (\<lambda>j. listen_thread w = Some j) (live_threads w)"

text \<open>Lines 38-39 of \<open>disconnect\<close>: close the client socket if one is held.\<close>

definition close_held :: "'v world \<Rightarrow> 'v world" where
  "close_held w = (case client w of None \<Rightarrow> w | Some h \<Rightarrow> close_sock h w)"

subsection \<open>Sessions to evaluate on\<close>

text \<open>
  \<open>linked\<close> is an initiator's session right after its connection is established: the
  state the first step of the thread leaves when every call of the set-up returns
  (\<open>linked_reached\<close>). \<open>stopped_listener\<close> is a listener's session on which
  \<open>disconnect\<close> and then \<open>connect\<close> have been called: the stop event is set and the
  new thread has not run yet (\<open>stopped_listener_reached\<close>).
\<close>

definition linked :: "nat world" where
  "linked =
     \<lparr>as_server = False, host = ''pc'', port = 11111, listen_thread = Some 0,
      stop_event = False, client = Some 0, data_queue = [],
      threads = [\<lparr>th_as_server = False, th_host = ''pc'', th_port = 11111,
                  th_callback = 0, th_pc = AtLoop 0, th_died = None\<rparr>],
      sock_count = 1, closed = {},
      trace = [Start 0, Called Socket None, Called (Connect 0 ''pc'' 11111) None,
               Called (SetBlocking 0 True) None, Called (SetTimeout 0) None,
               Callback 0 None]\<rparr>"

definition stopped_listener :: "nat world" where
  "stopped_listener =
     \<lparr>as_server = True, host = ''pc'', port = 11111, listen_thread = Some 0,
      stop_event = True, client = None, data_queue = [],
      threads = [\<lparr>th_as_server = True, th_host = ''pc'', th_port = 11111,
                  th_callback = 0, th_pc = AtStart, th_died = None\<rparr>],
      sock_count = 0, closed = {}, trace = [Start 0]\<rparr>"

section \<open>The framing codec\<close>

lemma uint_byte: "uint (word_of_int k :: byte) = k mod 256"
  by (simp add: uint_word_of_int)

lemma int_from_to_bytes:
  assumes "0 \<le> u" "u < 4294967296"
  shows "int_from_bytes (int_to_bytes u) = u"
proof -
  have top: "u div 16777216 mod 256 = u div 16777216"
    using assms
    by (intro mod_pos_pos_trivial)
       (simp_all add: div_less_iff_less_mult pos_imp_zdiv_nonneg_iff)
  have nest: "u div 65536 = u div 256 div 256" "u div 16777216 = u div 256 div 256 div 256"
    by (simp_all add: div_mult2_eq [symmetric])
  have digits: "u mod 256 + 256 * ((u div 256) mod 256 + 256 * ((u div 65536) mod 256
         + 256 * ((u div 16777216) mod 256))) = u"
    unfolding top unfolding nest by (simp add: mult_div_mod_eq)
  have "int_from_bytes (int_to_bytes u) =
      u mod 256 + 256 * ((u div 256) mod 256 + 256 * ((u div 65536) mod 256
         + 256 * ((u div 16777216) mod 256)))"
    by (simp only: int_to_bytes_def int_from_bytes.simps uint_byte mult_zero_right add_0_right)
  then show ?thesis
    using digits by (rule trans)
qed

lemma native_native: "native bo (native bo bs) = bs"
  by (cases bo) (simp_all add: native_def)

lemma length_native: "length (native bo bs) = length bs"
  by (cases bo) (simp_all add: native_def)

lemma signed_wrap:
  assumes "- 2147483648 \<le> (n::int)" "n < 2147483648"
  shows "(if n mod 4294967296 < 2147483648 then n mod 4294967296
          else n mod 4294967296 - 4294967296) = n"
proof (cases "0 \<le> n")
  case True
  then have "n mod 4294967296 = n"
    using assms by (intro mod_pos_pos_trivial) simp_all
  then show ?thesis using assms by simp
next
  case False
  have "(n + 4294967296) mod 4294967296 = n + 4294967296"
    using assms False by (intro mod_pos_pos_trivial) simp_all
  then have "n mod 4294967296 = n + 4294967296" by simp
  then show ?thesis using False assms by simp
qed

lemma struct_unpack_pack:
  assumes "struct_pack_i bo n = Inr bs"
  shows "length bs = 4 \<and> struct_unpack_i bo bs = Inr n"
proof -
  from assms have rng: "- 2147483648 \<le> n" "n < 2147483648"
    and bs: "bs = native bo (int_to_bytes (n mod 4294967296))"
    by (auto simp: struct_pack_i_def split: if_splits)
  have len: "length bs = 4"
    by (simp add: bs length_native int_to_bytes_def)
  have "int_from_bytes (native bo bs) = n mod 4294967296"
    by (simp add: bs native_native int_from_to_bytes)
  then show ?thesis
    using len signed_wrap [OF rng] by (simp add: struct_unpack_i_def Let_def)
qed

lemma pack_data_frame:
  assumes "pack_data P v = Inr frame"
  shows "\<exists>header payload. frame = header @ payload \<and> length header = 4
           \<and> pickle_dumps P v = Inr payload
           \<and> struct_unpack_i (byte_order P) header = Inr (int (length payload))"
proof -
  from assms obtain payload header where
    p: "pickle_dumps P v = Inr payload"
    and h: "struct_pack_i (byte_order P) (int (length payload)) = Inr header"
    and f: "frame = header @ payload"
    by (auto simp: pack_data_def split: sum.splits)
  from struct_unpack_pack [OF h] p f show ?thesis by blast
qed

lemma sock_recv_all:
  "0 \<le> n \<Longrightarrow> sock_recv n (Returns bs # tape) =
     Some (Inr (take (nat n) bs), if length bs \<le> nat n then tape else Returns (drop (nat n) bs) # tape)"
  by simp

lemma recv_frame_read:
  assumes "length hdr = 4" "struct_unpack_i (byte_order P) hdr = Inr n" "0 \<le> n"
  shows "recv_frame P (Returns hdr # Returns got # tape) =
           Some (pickle_loads P (take (nat n) got),
                 if length got \<le> nat n then tape else Returns (drop (nat n) got) # tape)"
  using assms by (simp add: recv_frame_def)

lemma int_pack7: "pack_data int_platform 7 = Inr [5, 0, 0, 0, 128, 4, 75, 7, 46]"
  by (simp add: pack_data_def int_platform_def int_dumps_def struct_pack_i_def native_def
        int_to_bytes_def)

text \<open>
  Claim C1 (round-trip law). For every value the codec accepts (\<open>_pack_data\<close> returns a
  frame) and that pickle gives back from its own non-empty output, the frame is a 4-byte
  header followed by the pickled payload, and the receive loop's reads and decoding
  (lines 165-168), applied to a stream that holds the frame, yield the value and leave
  the rest of the stream.
\<close>

theorem frame_roundtrip:
  assumes enc: "pack_data P v = Inr frame"
    and dumps: "pickle_dumps P v = Inr payload"
    and loads: "pickle_loads P payload = Inr v"
    and nonempty: "payload \<noteq> []"
  shows "length (take 4 frame) = 4 \<and> frame = take 4 frame @ payload
         \<and> recv_frame P (Returns (frame @ rest) # tape) =
             Some (Inr v, if rest = [] then tape else Returns rest # tape)"
proof -
  from pack_data_frame [OF enc] dumps obtain header where
    f: "frame = header @ payload" and h: "length header = 4"
    and u: "struct_unpack_i (byte_order P) header = Inr (int (length payload))"
    by auto
  have first: "sock_recv 4 (Returns (frame @ rest) # tape) =
      Some (Inr header, Returns (payload @ rest) # tape)"
    using f h nonempty by simp
  have second: "sock_recv (int (length payload)) (Returns (payload @ rest) # tape) =
      Some (Inr payload, if rest = [] then tape else Returns rest # tape)"
    by simp
  have "recv_frame P (Returns (frame @ rest) # tape) =
      Some (Inr v, if rest = [] then tape else Returns rest # tape)"
    unfolding recv_frame_def first using u second loads
    by (simp del: sock_recv.simps)
  with f h show ?thesis by simp
qed

theorem frame_roundtrip_witness:
  "pack_data int_platform 7 = Inr [5, 0, 0, 0, 128, 4, 75, 7, 46]
   \<and> pickle_dumps int_platform 7 = Inr [128, 4, 75, 7, 46]
   \<and> pickle_loads int_platform [128, 4, 75, 7, 46] = Inr 7
   \<and> recv_frame int_platform [Returns [5, 0, 0, 0, 128, 4, 75, 7, 46, 9]] =
        Some (Inr 7, [Returns [9]])"
proof -
  have d: "pickle_dumps int_platform 7 = Inr [128, 4, 75, 7, 46]"
    by (simp add: int_platform_def int_dumps_def)
  have l: "pickle_loads int_platform [128, 4, 75, 7, 46] = Inr 7"
    by (simp add: int_platform_def)
  from frame_roundtrip [OF int_pack7 d l, of "[9]" "[]"] int_pack7 d l
  show ?thesis by simp
qed

text \<open>
  Claim C3, as the spec states it: a header whose value differs from the number of payload
  bytes actually read surfaces a decode error. It does not: the header says 10, the read
  returns the 5 bytes of a complete pickle of 1, and the loop decodes 1 without an error.
\<close>

theorem header_mismatch_counterexample:
  "struct_unpack_i (byte_order int_platform) [10, 0, 0, 0] = Inr 10
   \<and> length [128, 4, 75, 1, 46 :: byte] = 5
   \<and> recv_frame int_platform [Returns [10, 0, 0, 0], Returns [128, 4, 75, 1, 46]] =
        Some (Inr 1, [])"
  by (simp add: recv_frame_def struct_unpack_i_def native_def int_platform_def)

text \<open>
  Claim C3, amended. The header of a written frame is 4 bytes and unpacks to exactly the
  length of the payload that follows it. On the receiving side the header value is only
  the size asked of the one \<open>recv\<close> call: the bytes that call returned (at most that
  many) go to \<open>pickle.loads\<close> as they are, and whether an error surfaces is decided by
  \<open>pickle.loads\<close> alone; the rest of the buffered bytes stays in the stream.
\<close>

theorem header_and_read:
  "(pack_data P v = Inr frame \<and> pickle_dumps P v = Inr payload \<longrightarrow>
      length (take 4 frame) = 4 \<and> drop 4 frame = payload
      \<and> struct_unpack_i (byte_order P) (take 4 frame) = Inr (int (length payload)))
   \<and> (length hdr = 4 \<and> struct_unpack_i (byte_order P) hdr = Inr n \<and> 0 \<le> n \<longrightarrow>
      recv_frame P (Returns hdr # Returns got # tape) =
        Some (pickle_loads P (take (nat n) got),
              if length got \<le> nat n then tape else Returns (drop (nat n) got) # tape))"
proof (intro conjI impI)
  assume a: "pack_data P v = Inr frame \<and> pickle_dumps P v = Inr payload"
  with pack_data_frame [of P v frame] obtain header where
    f: "frame = header @ payload" and h: "length header = 4"
    and u: "struct_unpack_i (byte_order P) header = Inr (int (length payload))"
    by auto
  from f h u show "length (take 4 frame) = 4" "drop 4 frame = payload"
    "struct_unpack_i (byte_order P) (take 4 frame) = Inr (int (length payload))"
    by simp_all
next
  assume "length hdr = 4 \<and> struct_unpack_i (byte_order P) hdr = Inr n \<and> 0 \<le> n"
  then show "recv_frame P (Returns hdr # Returns got # tape) =
        Some (pickle_loads P (take (nat n) got),
              if length got \<le> nat n then tape else Returns (drop (nat n) got) # tape)"
    by (simp add: recv_frame_read)
qed

theorem header_and_read_witness:
  "pack_data int_platform 7 = Inr [5, 0, 0, 0, 128, 4, 75, 7, 46]
   \<and> struct_unpack_i (byte_order int_platform) (take 4 [5, 0, 0, 0, 128, 4, 75, 7, 46]) = Inr 5
   \<and> recv_frame int_platform [Returns [5, 0, 0, 0], Returns [128, 4, 75, 7]] =
        Some (Inl UnpicklingError, [])"
proof -
  have d: "pickle_dumps int_platform 7 = Inr [128, 4, 75, 7, 46]"
    by (simp add: int_platform_def int_dumps_def)
  have u: "struct_unpack_i (byte_order int_platform) [5, 0, 0, 0] = Inr 5"
    by (simp add: struct_unpack_i_def native_def int_platform_def)
  from header_and_read [of int_platform 7 "[5, 0, 0, 0, 128, 4, 75, 7, 46]"
      "[128, 4, 75, 7, 46]" "[5, 0, 0, 0]" 5 "[128, 4, 75, 7]" "[]"] int_pack7 d u
  show ?thesis by (simp add: int_platform_def)
qed

section \<open>What a run of the thread does\<close>

lemmas prim_defs = emit_def set_pc_def die_def close_sock_def cleanup_def new_sock_def

lemma run_dead: "\<not> is_alive i w \<Longrightarrow> run P i tape w = Some (tape, w)"
  by simp

lemma run_alive:
  "is_alive i w \<Longrightarrow> run P i tape w =
     (case thread_step P i tape w of None \<Rightarrow> None | Some (tape', w') \<Rightarrow> run P i tape' w')"
  by simp

declare run.simps [simp del]

lemma recv_iter_effect:
  assumes "recv_iter P i h tape w = Some (t1, w1)"
  shows "(\<exists>q. w1 = w\<lparr>data_queue := q\<rparr>)
       \<or> (\<exists>d evs. w1 = cleanup i h d (w\<lparr>trace := trace w @ evs\<rparr>) \<and> list_all is_log evs)"
proof (cases "stop_event w")
  case True
  with assms have "w1 = cleanup i h None (w\<lparr>trace := trace w @ [Log ThreadExit]\<rparr>)"
    by (simp add: recv_iter_def emit_def)
  then show ?thesis by (intro disjI2 exI [of _ None] exI [of _ "[Log ThreadExit]"]) simp
next
  case False
  with assms obtain r where r: "recv_frame P tape = Some (r, t1)"
    by (auto simp: recv_iter_def split: option.splits sum.splits if_splits)
  show ?thesis
  proof (cases r)
    case (Inr data)
    with assms False r have "w1 = w\<lparr>data_queue := data_queue w @ [data]\<rparr>"
      by (simp add: recv_iter_def)
    then show ?thesis by blast
  next
    case (Inl e)
    consider "e = SocketTimeout"
      | "e \<noteq> SocketTimeout" "is_OSError e"
      | "\<not> is_OSError e" "is_Exception e"
      | "\<not> is_Exception e"
      by (cases e) auto
    then show ?thesis
    proof cases
      case 1
      with assms False r Inl have "w1 = w" by (simp add: recv_iter_def)
      then have "w1 = w\<lparr>data_queue := data_queue w\<rparr>" by simp
      then show ?thesis by blast
    next
      case 2
      with assms False r Inl
      have "w1 = cleanup i h None (w\<lparr>trace := trace w @ [Log ThreadExit]\<rparr>)"
        by (cases e) (auto simp: recv_iter_def emit_def)
      then show ?thesis by (intro disjI2 exI [of _ None] exI [of _ "[Log ThreadExit]"]) simp
    next
      case 3
      with assms False r Inl
      have "w1 = cleanup i h None (w\<lparr>trace := trace w @ [Log (RecvFailed e), Log ThreadExit]\<rparr>)"
        by (cases e) (auto simp: recv_iter_def emit_def)
      then show ?thesis
        by (intro disjI2 exI [of _ None] exI [of _ "[Log (RecvFailed e), Log ThreadExit]"]) simp
    next
      case 4
      with assms False r Inl
      have "w1 = cleanup i h (Some e) (w\<lparr>trace := trace w @ []\<rparr>)"
        by (cases e) (auto simp: recv_iter_def emit_def)
      then show ?thesis by (intro disjI2 exI [of _ "Some e"] exI [of _ "[]"]) simp
    qed
  qed
qed

lemma run_loop:
  assumes "run P i tape w = Some (tape', w')" "i < length (threads w)"
    "th_pc (threads w ! i) = AtLoop h"
  shows "\<exists>q d evs. w' = cleanup i h d (w\<lparr>data_queue := q, trace := trace w @ evs\<rparr>)
            \<and> list_all is_log evs"
  using assms
proof (induction P i tape w rule: run.induct)
  case (1 P i tape w)
  from "1.prems" have alive: "is_alive i w" by (simp add: is_alive_def)
  with "1.prems" obtain t1 w1 where step: "recv_iter P i h tape w = Some (t1, w1)"
    and rest: "run P i t1 w1 = Some (tape', w')"
    by (auto simp: run_alive thread_step_def split: option.splits)
  from step alive "1.prems" have ts: "thread_step P i tape w = Some (t1, w1)"
    by (simp add: thread_step_def)
  from recv_iter_effect [OF step] show ?case
  proof (elim disjE exE conjE)
    fix q assume w1: "w1 = w\<lparr>data_queue := q\<rparr>"
    with "1.prems" have "i < length (threads w1)" "th_pc (threads w1 ! i) = AtLoop h" by simp_all
    from "1.IH" [OF alive ts refl rest this] w1 show ?thesis
      by auto
  next
    fix d evs assume w1: "w1 = cleanup i h d (w\<lparr>trace := trace w @ evs\<rparr>)" and l: "list_all is_log evs"
    with "1.prems" have "\<not> is_alive i w1" by (simp add: prim_defs is_alive_def)
    with rest have "w' = w1" by (simp add: run_dead)
    with w1 have "w' = cleanup i h d (w\<lparr>data_queue := data_queue w, trace := trace w @ evs\<rparr>)" by simp
    with l show ?thesis by blast
  qed
qed

lemma callbacks_simps [simp]:
  "callbacks [] = []" "callbacks (ev # evs) = callback_of ev @ callbacks evs"
  "callbacks (xs @ ys) = callbacks xs @ callbacks ys"
  by (simp_all add: callbacks_def)

lemma raised_simps [simp]:
  "raised [] = []" "raised (ev # evs) = raised_of ev @ raised evs"
  "raised (xs @ ys) = raised xs @ raised ys"
  by (simp_all add: raised_def)

lemma logs_quiet:
  "list_all is_log evs \<Longrightarrow> callbacks evs = [] \<and> filter is_established evs = [] \<and> raised evs = []"
proof (induction evs)
  case (Cons ev evs)
  then show ?case by (cases ev) auto
qed simp

lemma try_calls_Cons:
  "try_calls (c # cs) tape w =
     (case tape of
        [] \<Rightarrow> None
      | Raises e # tape' \<Rightarrow> Some (Some e, tape', emit (Called c (Some e)) w)
      | Returns b # tape' \<Rightarrow> try_calls cs tape' (emit (Called c None) w))"
  by (cases tape; simp split: answer.splits)

lemma cb_outcome_prepend:
  "cb_outcome cb coop evs \<Longrightarrow> callbacks pre = [] \<Longrightarrow> filter is_established pre = [] \<Longrightarrow>
     cb_outcome cb coop (pre @ evs)"
  by (auto simp: cb_outcome_def)

lemma established_cases:
  assumes "established i h tape w = Some (t1, w1)" "i < length (threads w)"
  shows "(w1 = set_pc i (AtLoop h) (w\<lparr>client := Some h, trace := trace w @
               [Called (SetBlocking h True) None, Called (SetTimeout h) None,
                Callback (th_callback (threads w ! i)) None]\<rparr>))
       \<or> (\<not> is_alive i w1 \<and> th_died (threads w1 ! i) \<noteq> None)"
  using assms
  by (auto simp: established_def try_calls_Cons prim_defs is_alive_def Let_def
        split: list.splits answer.splits)

lemma conn_failed_cases:
  assumes "conn_failed i e tape w = Some (t1, w1)" "i < length (threads w)"
  shows "\<not> is_alive i w1 \<and>
     (th_died (threads w1 ! i) = None \<longrightarrow>
        w1 = die i None (w\<lparr>trace := trace w @
               [Log (ConnectFailed e), Callback (th_callback (threads w ! i)) (Some e)]\<rparr>))"
  using assms
  by (auto simp: conn_failed_def prim_defs is_alive_def Let_def
        split: list.splits answer.splits if_splits)

lemma run_result_dead:
  "run P i tape w = Some (tape', w') \<Longrightarrow> \<not> is_alive i w'"
proof (induction P i tape w rule: run.induct)
  case (1 P i tape w)
  then show ?case
    by (cases "is_alive i w") (auto simp: run_alive run_dead split: option.splits)
qed

lemma after_established:
  assumes est: "established i h t wA = Some (t1, w1)" and i: "i < length (threads wA)"
    and rest: "run P i t1 w1 = Some (tape', w')" and died: "th_died (threads w' ! i) = None"
  shows "\<exists>evs. trace w' = trace wA @ evs \<and> filter is_established evs = []
           \<and> callbacks evs = [(th_callback (threads wA ! i), None)]"
proof -
  from established_cases [OF est i] show ?thesis
  proof (elim disjE conjE)
    assume w1: "w1 = set_pc i (AtLoop h) (wA\<lparr>client := Some h, trace := trace wA @
               [Called (SetBlocking h True) None, Called (SetTimeout h) None,
                Callback (th_callback (threads wA ! i)) None]\<rparr>)"
    with i have "i < length (threads w1)" "th_pc (threads w1 ! i) = AtLoop h"
      by (simp_all add: prim_defs)
    from run_loop [OF rest this] obtain q d evs where
      w': "w' = cleanup i h d (w1\<lparr>data_queue := q, trace := trace w1 @ evs\<rparr>)"
      and logs: "list_all is_log evs" by blast
    from w' w1 have "trace w' = trace wA @
        ([Called (SetBlocking h True) None, Called (SetTimeout h) None,
          Callback (th_callback (threads wA ! i)) None] @ evs)"
      by (simp add: prim_defs)
    with logs_quiet [OF logs] show ?thesis by (intro exI conjI) auto
  next
    assume dead: "\<not> is_alive i w1" and "th_died (threads w1 ! i) \<noteq> None"
    with rest died show ?thesis by (simp add: run_dead)
  qed
qed

lemma after_conn_failed:
  assumes cf: "conn_failed i e t wA = Some (t1, w1)" and i: "i < length (threads wA)"
    and rest: "run P i t1 w1 = Some (tape', w')" and died: "th_died (threads w' ! i) = None"
  shows "trace w' = trace wA @
           [Log (ConnectFailed e), Callback (th_callback (threads wA ! i)) (Some e)]"
proof -
  from conn_failed_cases [OF cf i] rest have "w' = w1" by (simp add: run_dead)
  with conn_failed_cases [OF cf i] died show ?thesis by (simp add: prim_defs)
qed

lemma run_accept:
  assumes "run P i tape w = Some (tape', w')" "i < length (threads w)"
    "th_pc (threads w ! i) = AtAccept s" "th_died (threads w' ! i) = None"
  shows "\<exists>evs. trace w' = trace w @ evs
           \<and> cb_outcome (th_callback (threads w ! i)) (stop_event w') evs"
  using assms
proof (induction P i tape w rule: run.induct)
  case (1 P i tape w)
  let ?cb = "th_callback (threads w ! i)"
  from "1.prems" have alive: "is_alive i w" by (simp add: is_alive_def)
  with "1.prems" obtain t1 w1 where step: "accept_iter i s tape w = Some (t1, w1)"
    and rest: "run P i t1 w1 = Some (tape', w')"
    by (auto simp: run_alive thread_step_def split: option.splits)
  from step "1.prems" have ts: "thread_step P i tape w = Some (t1, w1)"
    by (simp add: thread_step_def)
  note i = \<open>i < length (threads w)\<close>
  show ?case
  proof (cases "stop_event w")
    case True
    with step have w1: "w1 = die i None (emit (Log ThreadExit) w)"
      by (simp add: accept_iter_def)
    with i rest have "w' = w1" by (simp add: run_dead)
    with w1 True have "trace w' = trace w @ [Log ThreadExit]" "stop_event w'"
      by (simp_all add: prim_defs)
    then show ?thesis by (intro exI [of _ "[Log ThreadExit]"]) (simp add: cb_outcome_def)
  next
    case False
    with step obtain a t where tape: "tape = a # t"
      by (cases tape) (auto simp: accept_iter_def)
    show ?thesis
    proof (cases a)
      case (Returns b)
      let ?wA = "(emit (Called (Accept s) None) w)\<lparr>sock_count := Suc (sock_count w)\<rparr>"
      from step False tape Returns
      have est: "established i (sock_count w) t ?wA = Some (t1, w1)"
        by (simp add: accept_iter_def new_sock_def emit_def)
      have iA: "i < length (threads ?wA)" using i by simp
      from after_established [OF est iA rest \<open>th_died (threads w' ! i) = None\<close>]
      obtain evs where "trace w' = trace ?wA @ evs" "filter is_established evs = []"
        "callbacks evs = [(?cb, None)]" by auto
      then have "trace w' = trace w @ (Called (Accept s) None # evs)"
        "cb_outcome ?cb (stop_event w') (Called (Accept s) None # evs)"
        by (simp_all add: emit_def cb_outcome_def)
      then show ?thesis by blast
    next
      case (Raises e)
      show ?thesis
      proof (cases "e = BlockingIOError")
        case True
        with step False tape Raises
        have w1: "w1 = w\<lparr>trace := trace w @
            [Called (Accept s) (Some BlockingIOError), Sleep, Log Waiting]\<rparr>" and "t1 = t"
          by (simp_all add: accept_iter_def emit_def)
        with "1.prems" have "i < length (threads w1)" "th_pc (threads w1 ! i) = AtAccept s"
          by simp_all
        from "1.IH" [OF alive ts refl rest this \<open>th_died (threads w' ! i) = None\<close>]
        obtain evs where "trace w' = trace w1 @ evs"
          "cb_outcome (th_callback (threads w1 ! i)) (stop_event w') evs" by blast
        with w1 have tr: "trace w' = trace w @
             ([Called (Accept s) (Some BlockingIOError), Sleep, Log Waiting] @ evs)"
          and out: "cb_outcome ?cb (stop_event w') evs"
          by simp_all
        have "cb_outcome ?cb (stop_event w')
             ([Called (Accept s) (Some BlockingIOError), Sleep, Log Waiting] @ evs)"
          by (rule cb_outcome_prepend [OF out]) simp_all
        with tr show ?thesis by blast
      next
        case notblocking: False
        let ?wA = "emit (Called (Accept s) (Some e)) w"
        from step False tape Raises notblocking
        have cf: "conn_failed i e t ?wA = Some (t1, w1)"
          by (simp add: accept_iter_def)
        have iA: "i < length (threads ?wA)" using i by simp
        from after_conn_failed [OF cf iA rest \<open>th_died (threads w' ! i) = None\<close>]
        have "trace w' = trace w @
           [Called (Accept s) (Some e), Log (ConnectFailed e), Callback ?cb (Some e)]"
          by (simp add: emit_def)
        moreover have "cb_outcome ?cb (stop_event w')
           [Called (Accept s) (Some e), Log (ConnectFailed e), Callback ?cb (Some e)]"
          by (simp add: cb_outcome_def)
        ultimately show ?thesis by blast
      qed
    qed
  qed
qed

lemma try_calls_quiet:
  assumes "try_calls cs tape w = Some (r, t1, w1)"
    "list_all (\<lambda>c. \<not> is_established (Called c None)) cs"
  shows "\<exists>pre. w1 = w\<lparr>trace := trace w @ pre\<rparr> \<and> callbacks pre = []
           \<and> filter is_established pre = []
           \<and> raised pre = (case r of None \<Rightarrow> [] | Some e \<Rightarrow> [e])"
  using assms
proof (induction cs tape w rule: try_calls.induct)
  case (1 tape w)
  then show ?case by (intro exI [of _ "[]"]) simp
next
  case (2 c cs w)
  then show ?case by simp
next
  case (3 c cs e tape w)
  then show ?case by (intro exI [of _ "[Called c (Some e)]"]) (auto simp: emit_def)
next
  case (4 c cs b tape w)
  then obtain pre where pre: "w1 = (emit (Called c None) w)\<lparr>trace := trace (emit (Called c None) w) @ pre\<rparr>"
    "callbacks pre = []" "filter is_established pre = []"
    "raised pre = (case r of None \<Rightarrow> [] | Some e \<Rightarrow> [e])"
    by auto
  with "4.prems" show ?case
    by (intro exI [of _ "Called c None # pre"]) (simp add: emit_def)
qed

lemma try_connect_cases:
  assumes "try_calls [Connect c h p] tape w = Some (r, t1, w1)"
  shows "(r = None \<and> w1 = w\<lparr>trace := trace w @ [Called (Connect c h p) None]\<rparr>)
       \<or> (\<exists>e. r = Some e \<and> w1 = w\<lparr>trace := trace w @ [Called (Connect c h p) (Some e)]\<rparr>)"
  using assms by (auto simp: try_calls_Cons emit_def split: list.splits answer.splits)

lemma run_start:
  assumes run: "run P i tape w = Some (tape', w')" and i: "i < length (threads w)"
    and pc: "th_pc (threads w ! i) = AtStart" and died: "th_died (threads w' ! i) = None"
  shows "\<exists>evs. trace w' = trace w @ evs
           \<and> cb_outcome (th_callback (threads w ! i))
                (th_as_server (threads w ! i) \<and> stop_event w') evs"
proof -
  let ?t = "threads w ! i"
  let ?cb = "th_callback ?t"
  let ?coop = "th_as_server ?t \<and> stop_event w'"
  from i pc have alive: "is_alive i w" by (simp add: is_alive_def)
  with run pc obtain t1 w1 where step: "run_begin i tape w = Some (t1, w1)"
    and rest: "run P i t1 w1 = Some (tape', w')"
    by (auto simp: run_alive thread_step_def split: option.splits)
  from step obtain r ta wa where sock: "try_calls [Socket] tape w = Some (r, ta, wa)"
    by (auto simp: run_begin_def Let_def split: if_splits option.splits)
  from try_calls_quiet [OF sock] obtain pre1 where
    wa: "wa = w\<lparr>trace := trace w @ pre1\<rparr>" and q1: "callbacks pre1 = []"
      "filter is_established pre1 = []" "raised pre1 = (case r of None \<Rightarrow> [] | Some e \<Rightarrow> [e])"
    by auto
  have failed: "\<exists>evs. trace w' = trace w @ evs \<and> cb_outcome ?cb ?coop evs"
    if cf: "conn_failed i e tb wb = Some (t1, w1)" and wb: "threads wb = threads w"
      "trace wb = trace w @ pre" and q: "callbacks pre = []" "filter is_established pre = []"
      "e \<in> set (raised pre)" for e tb wb pre
  proof -
    from i wb have "i < length (threads wb)" by simp
    from after_conn_failed [OF cf this rest died] wb
    have "trace w' = trace w @ (pre @ [Log (ConnectFailed e), Callback ?cb (Some e)])"
      by simp
    moreover from q have "cb_outcome ?cb ?coop (pre @ [Log (ConnectFailed e), Callback ?cb (Some e)])"
      by (simp add: cb_outcome_def)
    ultimately show ?thesis by blast
  qed
  show ?thesis
  proof (cases r)
    case (Some e)
    with step sock have "conn_failed i e ta wa = Some (t1, w1)"
      by (simp add: run_begin_def Let_def split: if_splits)
    from failed [OF this, of pre1] wa q1 Some show ?thesis by simp
  next
    case None
    let ?s = "sock_count w"
    let ?w2 = "wa\<lparr>sock_count := Suc ?s\<rparr>"
    show ?thesis
    proof (cases "th_as_server ?t")
      case True
      let ?cs = "[Bind ?s (th_host ?t) (th_port ?t), Listen ?s 3, SetBlocking ?s False]"
      from step sock None True wa obtain r2 tb wb where
        calls: "try_calls ?cs ta ?w2 = Some (r2, tb, wb)"
        by (auto simp: run_begin_def Let_def new_sock_def split: option.splits)
      from try_calls_quiet [OF calls] obtain pre2 where
        wb: "wb = ?w2\<lparr>trace := trace ?w2 @ pre2\<rparr>" and q2: "callbacks pre2 = []"
        "filter is_established pre2 = []"
        "raised pre2 = (case r2 of None \<Rightarrow> [] | Some e \<Rightarrow> [e])"
        by auto
      show ?thesis
      proof (cases r2)
        case (Some e)
        with step sock None True wa calls have "conn_failed i e tb wb = Some (t1, w1)"
          by (simp add: run_begin_def Let_def new_sock_def)
        from failed [OF this, of "pre1 @ pre2"] wa wb q1 q2 Some show ?thesis by simp
      next
        case r2None: None
        with step sock None True wa calls have w1: "w1 = set_pc i (AtAccept ?s) wb"
          by (simp add: run_begin_def Let_def new_sock_def)
        with wa wb i have "i < length (threads w1)" "th_pc (threads w1 ! i) = AtAccept ?s"
          by (simp_all add: prim_defs)
        from run_accept [OF rest this died] obtain evs where
          "trace w' = trace w1 @ evs" "cb_outcome (th_callback (threads w1 ! i)) (stop_event w') evs"
          by blast
        with w1 wa wb i have tr: "trace w' = trace w @ ((pre1 @ pre2) @ evs)"
          and out: "cb_outcome ?cb (stop_event w') evs"
          by (simp_all add: prim_defs)
        from out True have "cb_outcome ?cb ?coop evs" by (simp add: cb_outcome_def)
        then have "cb_outcome ?cb ?coop ((pre1 @ pre2) @ evs)"
          by (rule cb_outcome_prepend) (simp_all add: q1 q2)
        with tr show ?thesis by blast
      qed
    next
      case False
      from step sock None False wa obtain r2 tb wb where
        conn: "try_calls [Connect ?s (th_host ?t) (th_port ?t)] ta ?w2 = Some (r2, tb, wb)"
        by (auto simp: run_begin_def Let_def new_sock_def split: option.splits)
      from try_connect_cases [OF conn] show ?thesis
      proof (elim disjE conjE exE)
        fix e assume r2: "r2 = Some e"
          and wb: "wb = ?w2\<lparr>trace := trace ?w2 @ [Called (Connect ?s (th_host ?t) (th_port ?t)) (Some e)]\<rparr>"
        with step sock None False wa conn have "conn_failed i e tb wb = Some (t1, w1)"
          by (simp add: run_begin_def Let_def new_sock_def)
        from failed [OF this, of "pre1 @ [Called (Connect ?s (th_host ?t) (th_port ?t)) (Some e)]"]
          wa wb q1 show ?thesis by simp
      next
        assume r2: "r2 = None"
          and wb: "wb = ?w2\<lparr>trace := trace ?w2 @ [Called (Connect ?s (th_host ?t) (th_port ?t)) None]\<rparr>"
        with step sock None False wa conn have est: "established i ?s tb wb = Some (t1, w1)"
          by (simp add: run_begin_def Let_def new_sock_def)
        from wa wb i have ib: "i < length (threads wb)" by simp
        from after_established [OF est ib rest died] obtain evs where
          "trace w' = trace wb @ evs" "filter is_established evs = []"
          "callbacks evs = [(th_callback (threads wb ! i), None)]" by blast
        with wa wb q1 have
          "trace w' = trace w @ (pre1 @ Called (Connect ?s (th_host ?t) (th_port ?t)) None # evs)"
          "cb_outcome ?cb ?coop (pre1 @ Called (Connect ?s (th_host ?t) (th_port ?t)) None # evs)"
          by (simp_all add: cb_outcome_def)
        then show ?thesis by blast
      qed
    qed
  qed
qed

section \<open>What a step leaves alone\<close>

lemma addr_ok_Called [simp]: "addr_ok a (Called c r) = call_ok a c"
  by (cases c) simp_all

lemma keeps_refl [simp]: "keeps i w w"
  by (simp add: keeps_def)

lemma nth_set_pc [simp]:
  "th_as_server (ts[i := (ts ! i)\<lparr>th_pc := p\<rparr>] ! i) = th_as_server (ts ! i)"
  "th_host (ts[i := (ts ! i)\<lparr>th_pc := p\<rparr>] ! i) = th_host (ts ! i)"
  "th_port (ts[i := (ts ! i)\<lparr>th_pc := p\<rparr>] ! i) = th_port (ts ! i)"
  "th_callback (ts[i := (ts ! i)\<lparr>th_pc := p\<rparr>] ! i) = th_callback (ts ! i)"
  by (cases "i < length ts"; simp add: list_update_beyond)+

lemma nth_die [simp]:
  "th_as_server (ts[i := (ts ! i)\<lparr>th_pc := p, th_died := d\<rparr>] ! i) = th_as_server (ts ! i)"
  "th_host (ts[i := (ts ! i)\<lparr>th_pc := p, th_died := d\<rparr>] ! i) = th_host (ts ! i)"
  "th_port (ts[i := (ts ! i)\<lparr>th_pc := p, th_died := d\<rparr>] ! i) = th_port (ts ! i)"
  "th_callback (ts[i := (ts ! i)\<lparr>th_pc := p, th_died := d\<rparr>] ! i) = th_callback (ts ! i)"
  by (cases "i < length ts"; simp add: list_update_beyond)+

lemma keeps_emit: "keeps i w w1 \<Longrightarrow>
    addr_ok (th_host (threads w ! i), th_port (threads w ! i)) ev \<Longrightarrow> keeps i w (emit ev w1)"
  by (auto simp: keeps_def emit_def)

lemma keeps_set_pc: "keeps i w w1 \<Longrightarrow> keeps i w (set_pc i p w1)"
  unfolding keeps_def set_pc_def by simp

lemma keeps_die: "keeps i w w1 \<Longrightarrow> keeps i w (die i d w1)"
  unfolding keeps_def die_def by simp

lemma keeps_close: "keeps i w w1 \<Longrightarrow> keeps i w (close_sock h w1)"
  by (auto simp: keeps_def close_sock_def)

lemma keeps_client: "keeps i w w1 \<Longrightarrow> keeps i w (w1\<lparr>client := c\<rparr>)"
  by (auto simp: keeps_def)

lemma keeps_queue: "keeps i w w1 \<Longrightarrow> keeps i w (w1\<lparr>data_queue := q\<rparr>)"
  by (auto simp: keeps_def)

lemma keeps_sock_count: "keeps i w w1 \<Longrightarrow> keeps i w (w1\<lparr>sock_count := n\<rparr>)"
  by (auto simp: keeps_def)

lemma keeps_cleanup: "keeps i w w1 \<Longrightarrow> keeps i w (cleanup i h d w1)"
  by (simp add: cleanup_def keeps_die keeps_client keeps_close)

lemmas keeps_intros = keeps_emit keeps_set_pc keeps_die keeps_close keeps_client keeps_queue
  keeps_sock_count keeps_cleanup

lemma keeps_try_calls:
  "try_calls cs tape w0 = Some (r, t1, w1) \<Longrightarrow> keeps i w w0 \<Longrightarrow>
     list_all (call_ok (th_host (threads w ! i), th_port (threads w ! i))) cs \<Longrightarrow> keeps i w w1"
proof (induction cs tape w0 rule: try_calls.induct)
  case (3 c cs e tape w0)
  then show ?case by (auto intro: keeps_emit)
next
  case (4 c cs b tape w0)
  from "4.prems" have "keeps i w (emit (Called c None) w0)"
    by (auto intro: keeps_emit)
  with 4 show ?case by simp
qed simp_all

lemma keeps_conn_failed:
  "conn_failed i e tape w0 = Some (t1, w1) \<Longrightarrow> keeps i w w0 \<Longrightarrow> keeps i w w1"
  by (auto simp: conn_failed_def Let_def split: if_splits list.splits intro!: keeps_intros)

lemma keeps_established:
  "established i h tape w0 = Some (t1, w1) \<Longrightarrow> keeps i w w0 \<Longrightarrow> keeps i w w1"
  by (auto simp: established_def Let_def split: option.splits list.splits answer.splits
        intro!: keeps_intros dest!: keeps_try_calls [where i = i and w = w])

lemma keeps_run_begin:
  assumes "run_begin i tape w = Some (t1, w1)"
  shows "keeps i w w1"
proof -
  let ?a = "(th_host (threads w ! i), th_port (threads w ! i))"
  from assms obtain r ta wa where sock: "try_calls [Socket] tape w = Some (r, ta, wa)"
    by (auto simp: run_begin_def Let_def split: if_splits option.splits)
  from keeps_try_calls [OF sock, of i w] have fa: "keeps i w wa" by simp
  show ?thesis
  proof (cases r)
    case (Some e)
    with assms sock have "conn_failed i e ta wa = Some (t1, w1)"
      by (simp add: run_begin_def Let_def split: if_splits)
    from keeps_conn_failed [OF this fa] show ?thesis .
  next
    case None
    let ?s = "sock_count wa"
    let ?w2 = "wa\<lparr>sock_count := Suc ?s\<rparr>"
    have f2: "keeps i w ?w2" using fa by (rule keeps_sock_count)
    show ?thesis
    proof (cases "th_as_server (threads w ! i)")
      case True
      with assms sock None obtain r2 tb wb where
        calls: "try_calls [Bind ?s (th_host (threads w ! i)) (th_port (threads w ! i)),
                  Listen ?s 3, SetBlocking ?s False] ta ?w2 = Some (r2, tb, wb)"
        by (auto simp: run_begin_def Let_def new_sock_def split: option.splits)
      from keeps_try_calls [OF calls f2] have fb: "keeps i w wb" by simp
      from assms sock None True calls fb show ?thesis
        by (cases r2)
           (auto simp: run_begin_def Let_def new_sock_def
              intro: keeps_set_pc keeps_conn_failed)
    next
      case False
      with assms sock None obtain r2 tb wb where
        calls: "try_calls [Connect ?s (th_host (threads w ! i)) (th_port (threads w ! i))]
                  ta ?w2 = Some (r2, tb, wb)"
        by (auto simp: run_begin_def Let_def new_sock_def split: option.splits)
      from keeps_try_calls [OF calls f2] have fb: "keeps i w wb" by simp
      from assms sock None False calls fb show ?thesis
        by (cases r2)
           (auto simp: run_begin_def Let_def new_sock_def
              intro: keeps_established keeps_conn_failed)
    qed
  qed
qed

lemma keeps_accept_iter:
  "accept_iter i s tape w = Some (t1, w1) \<Longrightarrow> keeps i w w1"
  by (auto simp: accept_iter_def Let_def new_sock_def
        split: if_splits list.splits answer.splits
        intro!: keeps_intros
        intro: keeps_established [where w = w] keeps_conn_failed [where w = w])

lemma keeps_recv_iter:
  "recv_iter P i h tape w = Some (t1, w1) \<Longrightarrow> keeps i w w1"
  by (auto simp: recv_iter_def split: if_splits option.splits sum.splits intro!: keeps_intros)

lemma keeps_thread_step:
  "thread_step P i tape w = Some (t1, w1) \<Longrightarrow> keeps i w w1"
  by (auto simp: thread_step_def split: pc.splits
        intro: keeps_run_begin keeps_accept_iter keeps_recv_iter)

lemma keeps_trans: "keeps i w w1 \<Longrightarrow> keeps i w1 w2 \<Longrightarrow> keeps i w w2"
  by (auto simp: keeps_def)

lemma keeps_run:
  "run P i tape w = Some (tape', w') \<Longrightarrow> keeps i w w'"
proof (induction P i tape w rule: run.induct)
  case (1 P i tape w)
  show ?case
  proof (cases "is_alive i w")
    case True
    with "1.prems" obtain t1 w1 where step: "thread_step P i tape w = Some (t1, w1)"
      and rest: "run P i t1 w1 = Some (tape', w')"
      by (auto simp: run_alive split: option.splits)
    from keeps_thread_step [OF step] "1.IH" [OF True step refl rest] show ?thesis
      by (rule keeps_trans)
  next
    case False
    with "1.prems" show ?thesis by (simp add: run_dead)
  qed
qed

section \<open>Evaluation\<close>

lemmas eval_defs = run.simps connect_def init_def is_alive_def thread_step_def run_begin_def
  try_calls_Cons prim_defs accept_iter_def established_def recv_iter_def recv_frame_def
  struct_unpack_i_def native_def int_platform_def conn_failed_def Let_def disconnect_def
  send_def send_except_def pack_data_def int_dumps_def struct_pack_i_def int_to_bytes_def
  is_connected_def

lemma linked_reached:
  "exec int_platform [DoConnect 0, DoStep 0]
     [Returns [], Returns [], Returns [], Returns [], Returns []]
     (init int_platform False None None) = Some ([], linked)"
  by (simp add: eval_defs linked_def)

section \<open>send\<close>

text \<open>
  Claim C8. On a session that holds no socket handle, \<open>send\<close> returns the status 1
  ("not connected"), raises nothing and reads no answer of the environment; the one thing
  it changes is the log, which gains the warning of line 62.
\<close>

theorem send_not_connected:
  assumes "client w = None"
  shows "send P data tape w = Some (Return (Some 1), tape, w\<lparr>trace := trace w @ [Log NotConnected]\<rparr>)"
  using assms by (simp add: send_def emit_def)

theorem send_not_connected_witness:
  "client (init int_platform False None None) = None
   \<and> send int_platform 7 [] (init int_platform False None None)
       = Some (Return (Some 1), [],
               (init int_platform False None None)\<lparr>trace := [Log NotConnected]\<rparr>)"
  using send_not_connected [of "init int_platform False None None" int_platform 7 "[]"]
  by (simp add: init_def)

text \<open>
  Claim C2 asks for a non-zero failure status when the write raises. What \<open>send\<close>
  does then, for every connected session and every Exception the write raises: the
  exception is caught and logged, the session is as before but for the record of the
  call and the log line, and the value returned is Python's None, since lines 67-68 end
  without a \<open>return\<close>. None is no integer status, and a caller that tests the result
  for truth reads it as it reads the success status 0.
\<close>

theorem send_write_failure:
  assumes "client w = Some h" "pack_data P data = Inr frame" "is_Exception e"
  shows "send P data (Raises e # tape) w =
           Some (Return None, tape,
                 w\<lparr>trace := trace w @ [Called (Sendall h frame) (Some e), Log (SendFailed e)]\<rparr>)"
  using assms by (simp add: send_def send_except_def emit_def)

theorem send_write_failure_witness:
  "client linked = Some 0
   \<and> pack_data int_platform 7 = Inr [5, 0, 0, 0, 128, 4, 75, 7, 46]
   \<and> is_Exception OtherOSError
   \<and> send int_platform 7 [Raises OtherOSError] linked =
        Some (Return None, [],
              linked\<lparr>trace := trace linked @
                 [Called (Sendall 0 [5, 0, 0, 0, 128, 4, 75, 7, 46]) (Some OtherOSError),
                  Log (SendFailed OtherOSError)]\<rparr>)"
  using send_write_failure [of linked 0 int_platform 7 "[5, 0, 0, 0, 128, 4, 75, 7, 46]"
      OtherOSError "[]"] int_pack7
  by (simp add: linked_def)

section \<open>The receive loop\<close>

text \<open>
  Claim C5. From the head of the receive loop, with \<open>h\<close> the thread's client socket:
  a turn of the loop either stays in the loop or ends the thread with \<open>h\<close> closed and
  the session's handle cleared; and whenever the thread comes to its end, by whichever
  exit (stop event, connection reset, other OSError, decode failure, or an exception no
  handler catches), \<open>h\<close> is closed, the session's handle is None and
  \<open>is_connected\<close> is false.
\<close>

theorem loop_exit_cleanup:
  assumes "i < length (threads w)" "th_pc (threads w ! i) = AtLoop h"
  shows "(thread_step P i tape w = Some (t1, w1) \<longrightarrow>
            th_pc (threads w1 ! i) = AtLoop h
            \<or> (th_pc (threads w1 ! i) = Terminated \<and> h \<in> closed w1 \<and> client w1 = None
                \<and> \<not> is_connected w1))
       \<and> (run P i tape w = Some (tape', w') \<longrightarrow>
            th_pc (threads w' ! i) = Terminated \<and> h \<in> closed w' \<and> client w' = None
            \<and> \<not> is_connected w')"
proof (rule conjI; rule impI)
  assume "thread_step P i tape w = Some (t1, w1)"
  with assms have "recv_iter P i h tape w = Some (t1, w1)" by (simp add: thread_step_def)
  from recv_iter_effect [OF this] assms
  show "th_pc (threads w1 ! i) = AtLoop h
            \<or> (th_pc (threads w1 ! i) = Terminated \<and> h \<in> closed w1 \<and> client w1 = None
                \<and> \<not> is_connected w1)"
    by (auto simp: prim_defs is_connected_def)
next
  assume "run P i tape w = Some (tape', w')"
  from run_loop [OF this assms] assms
  show "th_pc (threads w' ! i) = Terminated \<and> h \<in> closed w' \<and> client w' = None
            \<and> \<not> is_connected w'"
    by (auto simp: prim_defs is_connected_def)
qed

theorem loop_exit_cleanup_witness:
  "0 < length (threads linked) \<and> th_pc (threads linked ! 0) = AtLoop 0
   \<and> run int_platform 0
        [Returns [5, 0, 0, 0, 128, 4, 75, 7, 46], Raises SocketTimeout, Raises ConnectionResetError]
        linked =
      Some ([], linked\<lparr>client := None, data_queue := [7],
                threads := [(threads linked ! 0)\<lparr>th_pc := Terminated\<rparr>],
                closed := {0}, trace := trace linked @ [Log ThreadExit]\<rparr>)
   \<and> \<not> is_connected (linked\<lparr>client := None, data_queue := [7],
                threads := [(threads linked ! 0)\<lparr>th_pc := Terminated\<rparr>],
                closed := {0}, trace := trace linked @ [Log ThreadExit]\<rparr>)"
proof -
  have r: "run int_platform 0
        [Returns [5, 0, 0, 0, 128, 4, 75, 7, 46], Raises SocketTimeout, Raises ConnectionResetError]
        linked =
      Some ([], linked\<lparr>client := None, data_queue := [7],
                threads := [(threads linked ! 0)\<lparr>th_pc := Terminated\<rparr>],
                closed := {0}, trace := trace linked @ [Log ThreadExit]\<rparr>)"
    by (simp add: eval_defs linked_def)
  have h: "0 < length (threads linked)" "th_pc (threads linked ! 0) = AtLoop 0"
    by (simp_all add: linked_def)
  from loop_exit_cleanup [OF h, of int_platform _ _ _ _] r h show ?thesis
    by simp
qed

section \<open>The connect callback\<close>



section \<open>One background thread\<close>

lemma one_live_threadI:
  "(\<And>j. is_alive j w \<Longrightarrow> listen_thread w = Some j) \<Longrightarrow> one_live_thread w"
  by (simp add: one_live_thread_def live_threads_def list_all_iff)

lemma one_live_threadD:
  "one_live_thread w \<Longrightarrow> is_alive j w \<Longrightarrow> listen_thread w = Some j"
  by (auto simp: one_live_thread_def live_threads_def list_all_iff is_alive_def)

lemma filter_single:
  assumes "distinct xs" "\<forall>x \<in> set xs. Q x \<longrightarrow> x = k"
  shows "length (filter Q xs) \<le> 1"
proof -
  have "length (filter Q xs) = card ({x. Q x} \<inter> set xs)"
    using assms(1) by (rule distinct_length_filter)
  also have "\<dots> \<le> card {k}"
  proof (rule card_mono)
    show "{x. Q x} \<inter> set xs \<subseteq> {k}" using assms(2) by blast
  qed simp
  finally show ?thesis by simp
qed

lemma one_live_thread_count: "one_live_thread w \<Longrightarrow> length (live_threads w) \<le> 1"
proof (cases "listen_thread w")
  case None
  assume "one_live_thread w"
  with None have "live_threads w = []"
    by (cases "live_threads w") (auto simp: one_live_thread_def)
  then show ?thesis by simp
next
  case (Some k)
  assume inv: "one_live_thread w"
  have single: "\<forall>x \<in> set [0..<length (threads w)]. is_alive x w \<longrightarrow> x = k"
  proof (intro ballI impI)
    fix x assume "is_alive x w"
    from one_live_threadD [OF inv this] Some show "x = k" by simp
  qed
  have "distinct [0..<length (threads w)]" by simp
  from filter_single [OF this single] show ?thesis
    by (simp only: live_threads_def)
qed

lemma connect_keeps_one_live:
  assumes "one_live_thread w"
  shows "one_live_thread (connect cb w)"
proof (cases "case listen_thread w of None \<Rightarrow> True | Some i \<Rightarrow> \<not> is_alive i w")
  case False
  then have "connect cb w = w" by (simp add: connect_def)
  with assms show ?thesis by simp
next
  case True
  have none: "\<not> is_alive j w" for j
  proof
    assume "is_alive j w"
    from one_live_threadD [OF assms this] True this show False by simp
  qed
  show ?thesis
  proof (rule one_live_threadI)
    fix j assume "is_alive j (connect cb w)"
    with True none [of j] show "listen_thread (connect cb w) = Some j"
      by (auto simp: connect_def Let_def emit_def is_alive_def nth_append split: if_splits)
  qed
qed

lemma keeps_one_live:
  assumes k: "keeps i w w'" and alive: "is_alive i w" and inv: "one_live_thread w"
  shows "one_live_thread w'"
proof (rule one_live_threadI)
  fix j assume j: "is_alive j w'"
  show "listen_thread w' = Some j"
  proof (cases "j = i")
    case True
    with one_live_threadD [OF inv alive] k show ?thesis by (simp add: keeps_def)
  next
    case False
    with k j have "is_alive j w" by (auto simp: keeps_def is_alive_def)
    from one_live_threadD [OF inv this] k show ?thesis by (simp add: keeps_def)
  qed
qed

lemma one_live_fields:
  "threads w' = threads w \<Longrightarrow> listen_thread w' = listen_thread w \<Longrightarrow>
     one_live_thread w' = one_live_thread w"
  by (simp add: one_live_thread_def live_threads_def is_alive_def)

lemma run_one_live:
  assumes "run P i tape w = Some (tape', w')" "one_live_thread w"
  shows "one_live_thread w'"
proof (cases "is_alive i w")
  case True
  from keeps_one_live [OF keeps_run [OF assms(1)] True assms(2)] show ?thesis .
next
  case False
  with assms show ?thesis by (simp add: run_dead)
qed

lemma apply_op_one_live:
  assumes "apply_op P a tape w = Some (tape', w')" "one_live_thread w"
  shows "one_live_thread w'"
proof (cases a)
  case (DoConnect cb)
  with assms show ?thesis by (auto intro: connect_keeps_one_live)
next
  case DoDisconnect
  let ?w2 = "case client w of None \<Rightarrow> w\<lparr>stop_event := True\<rparr>
             | Some h \<Rightarrow> close_sock h (w\<lparr>stop_event := True\<rparr>)"
  have "one_live_thread ?w2 = one_live_thread w"
    by (rule one_live_fields) (simp_all add: close_sock_def split: option.splits)
  with assms DoDisconnect show ?thesis
    by (auto simp: disconnect_def Let_def split: option.splits if_splits dest: run_one_live)
next
  case DoIsConnected
  with assms show ?thesis by simp
next
  case (DoSend data)
  with assms have "threads w' = threads w \<and> listen_thread w' = listen_thread w"
    by (auto simp: send_def send_except_def emit_def
          split: option.splits sum.splits list.splits answer.splits if_splits)
  with assms one_live_fields [of w' w] show ?thesis by simp
next
  case DoRecv
  with assms have "threads w' = threads w \<and> listen_thread w' = listen_thread w"
    by (auto simp: recv_def split: list.splits)
  with assms one_live_fields [of w' w] show ?thesis by simp
next
  case (DoStep i)
  with assms show ?thesis
    by (auto split: if_splits dest: keeps_thread_step keeps_one_live)
qed

lemma exec_one_live:
  "exec P ops tape w = Some (tape', w') \<Longrightarrow> one_live_thread w \<Longrightarrow> one_live_thread w'"
proof (induction ops arbitrary: tape w)
  case (Cons a ops)
  then show ?case
    by (auto split: option.splits dest: apply_op_one_live)
qed simp

text \<open>
  Claim C6. \<open>connect\<close> on a session whose thread is alive changes nothing: the state
  returned is the state given, so no thread is started, no callback is recorded and no
  socket is touched. \<open>connect\<close> keeps \<open>one_live_thread\<close> from any state, and so does
  every schedule of calls and thread steps: at most one thread is alive at any time.
\<close>

theorem connect_while_alive:
  "(listen_thread w = Some i \<and> is_alive i w \<longrightarrow> connect cb w = w)
   \<and> (one_live_thread w \<longrightarrow>
        one_live_thread (connect cb w) \<and> length (live_threads (connect cb w)) \<le> 1)
   \<and> (one_live_thread w \<and> exec P ops tape w = Some (tape', w') \<longrightarrow>
        one_live_thread w' \<and> length (live_threads w') \<le> 1)"
proof (intro conjI impI)
  assume "listen_thread w = Some i \<and> is_alive i w"
  then show "connect cb w = w" by (simp add: connect_def)
next
  assume "one_live_thread w"
  then show "one_live_thread (connect cb w)" by (rule connect_keeps_one_live)
  then show "length (live_threads (connect cb w)) \<le> 1" by (rule one_live_thread_count)
next
  assume "one_live_thread w \<and> exec P ops tape w = Some (tape', w')"
  then show "one_live_thread w'" by (auto dest: exec_one_live)
  then show "length (live_threads w') \<le> 1" by (rule one_live_thread_count)
qed

theorem connect_while_alive_witness:
  "listen_thread linked = Some 0 \<and> is_alive 0 linked \<and> one_live_thread linked
   \<and> connect 1 linked = linked
   \<and> exec int_platform [DoConnect 1, DoDisconnect, DoConnect 2] [] linked =
        Some ([], linked\<lparr>listen_thread := Some 1, stop_event := True, client := None,
                threads := [(threads linked ! 0)\<lparr>th_pc := Terminated\<rparr>,
                            (threads linked ! 0)\<lparr>th_callback := 2, th_pc := AtStart\<rparr>],
                closed := {0}, trace := trace linked @ [Log ThreadExit, Start 1]\<rparr>)
   \<and> live_threads (linked\<lparr>listen_thread := Some 1, stop_event := True, client := None,
                threads := [(threads linked ! 0)\<lparr>th_pc := Terminated\<rparr>,
                            (threads linked ! 0)\<lparr>th_callback := 2, th_pc := AtStart\<rparr>],
                closed := {0}, trace := trace linked @ [Log ThreadExit, Start 1]\<rparr>) = [1]"
proof -
  have a: "listen_thread linked = Some 0" "is_alive 0 linked"
    by (simp_all add: linked_def is_alive_def)
  have b: "one_live_thread linked"
    by (simp add: one_live_thread_def live_threads_def linked_def is_alive_def)
  have c: "exec int_platform [DoConnect 1, DoDisconnect, DoConnect 2] [] linked =
        Some ([], linked\<lparr>listen_thread := Some 1, stop_event := True, client := None,
                threads := [(threads linked ! 0)\<lparr>th_pc := Terminated\<rparr>,
                            (threads linked ! 0)\<lparr>th_callback := 2, th_pc := AtStart\<rparr>],
                closed := {0}, trace := trace linked @ [Log ThreadExit, Start 1]\<rparr>)"
    by (simp add: eval_defs linked_def)
  have d: "live_threads (linked\<lparr>listen_thread := Some 1, stop_event := True, client := None,
                threads := [(threads linked ! 0)\<lparr>th_pc := Terminated\<rparr>,
                            (threads linked ! 0)\<lparr>th_callback := 2, th_pc := AtStart\<rparr>],
                closed := {0}, trace := trace linked @ [Log ThreadExit, Start 1]\<rparr>) = [1]"
    by (simp add: live_threads_def linked_def is_alive_def)
  let ?W = "linked\<lparr>listen_thread := Some 1, stop_event := True, client := None,
                threads := [(threads linked ! 0)\<lparr>th_pc := Terminated\<rparr>,
                            (threads linked ! 0)\<lparr>th_callback := 2, th_pc := AtStart\<rparr>],
                closed := {0}, trace := trace linked @ [Log ThreadExit, Start 1]\<rparr>"
  from connect_while_alive [of linked 0 1 int_platform
      "[DoConnect 1, DoDisconnect, DoConnect 2]" "[]" "[]" ?W] a b
  have "connect 1 linked = linked" by blast
  with a b c d show ?thesis by blast
qed

section \<open>disconnect\<close>

lemma keeps_stop: "keeps i w w' \<Longrightarrow> stop_event w' = stop_event w"
  by (simp add: keeps_def)

lemma conn_failed_pc:
  "conn_failed i e tb wa = Some (t1, wb) \<Longrightarrow> i < length (threads wa) \<Longrightarrow>
     th_pc (threads wb ! i) = Terminated"
  by (auto simp: conn_failed_def prim_defs Let_def split: if_splits list.splits)

lemma established_pc:
  "established i h tb wa = Some (t1, wb) \<Longrightarrow> i < length (threads wa) \<Longrightarrow>
     th_pc (threads wb ! i) = AtLoop h \<or> th_pc (threads wb ! i) = Terminated"
  by (auto simp: established_def try_calls_Cons prim_defs Let_def
        split: list.splits answer.splits)

lemma try_calls_threads:
  "try_calls cs ta wa = Some (r, tb, wb) \<Longrightarrow> threads wb = threads wa"
  using try_calls_tape by blast

lemma run_begin_leaves_start:
  assumes "run_begin i tape w = Some (t1, w1)" "i < length (threads w)"
  shows "th_pc (threads w1 ! i) \<noteq> AtStart"
proof
  assume start: "th_pc (threads w1 ! i) = AtStart"
  from assms(1) consider
    (failed) e tb wa where "conn_failed i e tb wa = Some (t1, w1)" "threads wa = threads w"
    | (est) h tb wa where "established i h tb wa = Some (t1, w1)" "threads wa = threads w"
    | (acc) s wa where "w1 = set_pc i (AtAccept s) wa" "threads wa = threads w"
    by (auto simp: run_begin_def Let_def new_sock_def
          split: if_splits option.splits dest!: try_calls_threads)
  then show False
  proof cases
    case failed
    with conn_failed_pc [OF failed(1)] assms(2) start show False by simp
  next
    case est
    with established_pc [OF est(1)] assms(2) start show False by auto
  next
    case acc
    with assms(2) start show False by (simp add: set_pc_def)
  qed
qed

lemma run_stops_later:
  assumes "stop_event w" "th_pc (threads w ! i) \<noteq> AtStart"
  shows "run P i tape w \<noteq> None"
proof (cases "is_alive i w")
  case False
  then show ?thesis by (simp add: run_dead)
next
  case True
  then have i: "i < length (threads w)" by (simp add: is_alive_def)
  show ?thesis
  proof (cases "th_pc (threads w ! i)")
    case AtStart
    with assms show ?thesis by simp
  next
    case (AtAccept s)
    with assms True i show ?thesis
      by (simp add: run_alive thread_step_def accept_iter_def run_dead prim_defs is_alive_def)
  next
    case (AtLoop h)
    with assms True i show ?thesis
      by (simp add: run_alive thread_step_def recv_iter_def run_dead prim_defs is_alive_def)
  next
    case Terminated
    with True show ?thesis by (simp add: is_alive_def)
  qed
qed

lemma run_begin_five:
  assumes "5 \<le> length tape"
  shows "run_begin i tape w \<noteq> None"
proof -
  from assms obtain a1 a2 a3 a4 a5 rest where "tape = a1 # a2 # a3 # a4 # a5 # rest"
    by (cases tape; simp; rename_tac x xs; case_tac xs; simp;
        rename_tac y ys; case_tac ys; simp; rename_tac z zs; case_tac zs; simp;
        rename_tac u us; case_tac us; simp)
  then show ?thesis
    by (simp add: run_begin_def try_calls_Cons conn_failed_def established_def Let_def
          new_sock_def split: answer.splits)
qed

lemma run_stops:
  assumes "stop_event w" "5 \<le> length tape"
  shows "run P i tape w \<noteq> None"
proof (cases "is_alive i w \<and> th_pc (threads w ! i) = AtStart")
  case False
  show ?thesis
  proof (cases "is_alive i w")
    case True
    with False have "th_pc (threads w ! i) \<noteq> AtStart" by simp
    with assms(1) show ?thesis by (rule run_stops_later)
  next
    case False
    then show ?thesis by (simp add: run_dead)
  qed
next
  case True
  then have i: "i < length (threads w)" by (simp add: is_alive_def)
  from run_begin_five [OF assms(2), of i w] obtain t1 w1 where
    step: "run_begin i tape w = Some (t1, w1)" by (cases "run_begin i tape w") auto
  from keeps_stop [OF keeps_run_begin [OF step]] assms(1) have "stop_event w1" by simp
  from run_stops_later [OF this run_begin_leaves_start [OF step i]] True step
  show ?thesis by (simp add: run_alive thread_step_def)
qed

lemma set_stop_again: "stop_event w \<Longrightarrow> w\<lparr>stop_event := True\<rparr> = w"
  by (cases w) simp

lemma disconnect_alt:
  "disconnect P tape w =
     (case listen_thread w of
        None \<Rightarrow> Some (tape, close_held (w\<lparr>stop_event := True\<rparr>))
      | Some i \<Rightarrow> run P i tape (close_held (w\<lparr>stop_event := True\<rparr>)))"
  by (auto simp: disconnect_def close_held_def Let_def close_sock_def run_dead
        split: option.splits)

lemma close_held_fields [simp]:
  "stop_event (close_held w) = stop_event w" "listen_thread (close_held w) = listen_thread w"
  "threads (close_held w) = threads w" "client (close_held w) = client w"
  by (simp_all add: close_held_def close_sock_def split: option.splits)

lemma disconnect_done:
  assumes "disconnect P tape w = Some (tape', w')"
  shows "stop_event w' \<and> (case client w of None \<Rightarrow> True | Some h \<Rightarrow> h \<in> closed w')
       \<and> (case listen_thread w' of None \<Rightarrow> True | Some i \<Rightarrow> \<not> is_alive i w')"
proof (cases "listen_thread w")
  case None
  with assms show ?thesis
    by (auto simp: disconnect_alt close_held_def close_sock_def split: option.splits)
next
  case (Some i)
  let ?w2 = "close_held (w\<lparr>stop_event := True\<rparr>)"
  from assms Some have r: "run P i tape ?w2 = Some (tape', w')"
    by (simp add: disconnect_alt)
  from keeps_run [OF r] have k: "keeps i ?w2 w'" .
  then have "stop_event w'" "listen_thread w' = Some i" "closed ?w2 \<subseteq> closed w'"
    using Some by (simp_all add: keeps_def)
  moreover have "case client w of None \<Rightarrow> True | Some h \<Rightarrow> h \<in> closed ?w2"
    by (simp add: close_held_def close_sock_def split: option.splits)
  moreover from run_result_dead [OF r] have "\<not> is_alive i w'" .
  ultimately show ?thesis by (auto split: option.splits)
qed

text \<open>
  Claim C7. When \<open>disconnect\<close> returns, the stop event is set, the socket the session
  held is closed, and the session's thread is not alive (the join has waited for it).
  Calling it again is safe: the second call returns without reading any answer, and all
  it does is close once more the handle the session may still hold. On a session that
  is already closed (no handle, no live thread) it sets the stop event and nothing
  else. And it does return: five answers of the environment are enough for the join,
  because a thread that finds the stop event set ends at its next loop head.
\<close>

theorem disconnect_effect:
  "(disconnect P tape w = Some (tape', w') \<longrightarrow>
      stop_event w' \<and> (case client w of None \<Rightarrow> True | Some h \<Rightarrow> h \<in> closed w')
      \<and> (case listen_thread w' of None \<Rightarrow> True | Some i \<Rightarrow> \<not> is_alive i w')
      \<and> disconnect P tape2 w' = Some (tape2, close_held w'))
   \<and> (client w = None \<and> (case listen_thread w of None \<Rightarrow> True | Some i \<Rightarrow> \<not> is_alive i w) \<longrightarrow>
      disconnect P tape w = Some (tape, w\<lparr>stop_event := True\<rparr>))
   \<and> (5 \<le> length tape \<longrightarrow> disconnect P tape w \<noteq> None)"
proof (intro conjI impI)
  assume d: "disconnect P tape w = Some (tape', w')"
  from disconnect_done [OF d]
  show "stop_event w'" "case client w of None \<Rightarrow> True | Some h \<Rightarrow> h \<in> closed w'"
    "case listen_thread w' of None \<Rightarrow> True | Some i \<Rightarrow> \<not> is_alive i w'"
    by simp_all
  from disconnect_done [OF d] have s: "w'\<lparr>stop_event := True\<rparr> = w'"
    and dead: "case listen_thread w' of None \<Rightarrow> True | Some i \<Rightarrow> \<not> is_alive i (close_held w')"
    by (auto simp: set_stop_again is_alive_def split: option.splits)
  then show "disconnect P tape2 w' = Some (tape2, close_held w')"
    by (auto simp: disconnect_alt run_dead split: option.splits)
next
  assume "client w = None \<and> (case listen_thread w of None \<Rightarrow> True | Some i \<Rightarrow> \<not> is_alive i w)"
  then show "disconnect P tape w = Some (tape, w\<lparr>stop_event := True\<rparr>)"
    by (auto simp: disconnect_def Let_def is_alive_def split: option.splits)
next
  assume five: "5 \<le> length tape"
  show "disconnect P tape w \<noteq> None"
  proof (cases "listen_thread w")
    case None
    then show ?thesis by (simp add: disconnect_alt)
  next
    case (Some i)
    have "stop_event (close_held (w\<lparr>stop_event := True\<rparr>))" by simp
    from run_stops [OF this five] Some show ?thesis by (simp add: disconnect_alt)
  qed
qed

theorem disconnect_effect_witness:
  "disconnect int_platform [] linked =
      Some ([], linked\<lparr>stop_event := True, client := None,
                threads := [(threads linked ! 0)\<lparr>th_pc := Terminated\<rparr>],
                closed := {0}, trace := trace linked @ [Log ThreadExit]\<rparr>)
   \<and> disconnect int_platform []
        (linked\<lparr>stop_event := True, client := None,
                threads := [(threads linked ! 0)\<lparr>th_pc := Terminated\<rparr>],
                closed := {0}, trace := trace linked @ [Log ThreadExit]\<rparr>) =
      Some ([], linked\<lparr>stop_event := True, client := None,
                threads := [(threads linked ! 0)\<lparr>th_pc := Terminated\<rparr>],
                closed := {0}, trace := trace linked @ [Log ThreadExit]\<rparr>)
   \<and> 5 \<le> length [Returns [], Returns [], Returns [], Returns [], Returns [] :: answer]
   \<and> disconnect int_platform [Returns [], Returns [], Returns [], Returns [], Returns []]
        (connect 0 (init int_platform False None None)) \<noteq> None"
proof -
  let ?W = "linked\<lparr>stop_event := True, client := None,
                threads := [(threads linked ! 0)\<lparr>th_pc := Terminated\<rparr>],
                closed := {0}, trace := trace linked @ [Log ThreadExit]\<rparr>"
  have a: "disconnect int_platform [] linked = Some ([], ?W)"
    by (simp add: eval_defs linked_def)
  have c: "close_held ?W = ?W" by (simp add: close_held_def)
  from disconnect_effect [of int_platform "[]" linked "[]" ?W "[]"] a c
  have b: "disconnect int_platform [] ?W = Some ([], ?W)" by simp
  from disconnect_effect [of int_platform "[Returns [], Returns [], Returns [], Returns [], Returns []]"
      "connect 0 (init int_platform False None None)" "[]" ?W "[]"]
  have "disconnect int_platform [Returns [], Returns [], Returns [], Returns [], Returns []]
        (connect 0 (init int_platform False None None)) \<noteq> None" by simp
  with a b show ?thesis by simp
qed

section \<open>After disconnect\<close>

lemma try_calls_setup:
  assumes "try_calls cs tape w = Some (r, t1, w1)"
    "list_all (\<lambda>c. \<not> is_accept (Called c None)) cs"
  shows "\<exists>pre. w1 = w\<lparr>trace := trace w @ pre\<rparr> \<and> callbacks pre = []
           \<and> filter is_accept pre = []
           \<and> raised pre = (case r of None \<Rightarrow> [] | Some e \<Rightarrow> [e])"
  using assms
proof (induction cs tape w rule: try_calls.induct)
  case (1 tape w)
  then show ?case by (intro exI [of _ "[]"]) simp
next
  case (2 c cs w)
  then show ?case by simp
next
  case (3 c cs e tape w)
  then show ?case
    by (intro exI [of _ "[Called c (Some e)]"]) (cases c; auto simp: emit_def)
next
  case (4 c cs b tape w)
  then obtain pre where pre: "w1 = (emit (Called c None) w)\<lparr>trace := trace (emit (Called c None) w) @ pre\<rparr>"
    "callbacks pre = []" "filter is_accept pre = []"
    "raised pre = (case r of None \<Rightarrow> [] | Some e \<Rightarrow> [e])"
    by auto
  with "4.prems" show ?case
    by (intro exI [of _ "Called c None # pre"]) (simp add: emit_def)
qed

lemma conn_failed_result:
  assumes "conn_failed i e tb wa = Some (t1, w1)"
  shows "\<exists>d. w1 = die i d (wa\<lparr>trace := trace wa @
            (if is_Exception e
             then [Log (ConnectFailed e), Callback (th_callback (threads wa ! i)) (Some e)]
             else [])\<rparr>)"
  using assms
  by (auto simp: conn_failed_def Let_def emit_def split: if_splits list.splits)

lemma listener_stopped:
  assumes stop: "stop_event w" and i: "i < length (threads w)"
    and pc: "th_pc (threads w ! i) = AtStart" and srv: "th_as_server (threads w ! i)"
    and run: "run P i tape w = Some (tape', w')"
  shows "\<exists>evs. trace w' = trace w @ evs \<and> filter is_accept evs = [] \<and> client w' = client w
           \<and> length (raised evs) \<le> 1
           \<and> callbacks evs =
               map (\<lambda>e. (th_callback (threads w ! i), Some e)) (filter is_Exception (raised evs))"
proof -
  let ?cb = "th_callback (threads w ! i)"
  let ?t = "threads w ! i"
  from i pc have alive: "is_alive i w" by (simp add: is_alive_def)
  with run pc obtain t1 w1 where step: "run_begin i tape w = Some (t1, w1)"
    and rest: "run P i t1 w1 = Some (tape', w')"
    by (auto simp: run_alive thread_step_def split: option.splits)
  have failed: ?thesis
    if cf: "conn_failed i e tb wb = Some (t1, w1)"
      and wb: "threads wb = threads w" "trace wb = trace w @ pre" "client wb = client w"
      and q: "callbacks pre = []" "filter is_accept pre = []" "raised pre = [e]"
    for e tb wb pre
  proof -
    from conn_failed_result [OF cf] obtain d where
      w1: "w1 = die i d (wb\<lparr>trace := trace wb @
            (if is_Exception e
             then [Log (ConnectFailed e), Callback (th_callback (threads wb ! i)) (Some e)]
             else [])\<rparr>)"
      by blast
    with i wb have "\<not> is_alive i w1" by (simp add: prim_defs is_alive_def)
    with rest have "w' = w1" by (simp add: run_dead)
    with w1 wb have "trace w' = trace w @ (pre @
         (if is_Exception e then [Log (ConnectFailed e), Callback ?cb (Some e)] else []))"
      "client w' = client w"
      by (simp_all add: prim_defs)
    with q show ?thesis
      by (intro exI [of _ "pre @
         (if is_Exception e then [Log (ConnectFailed e), Callback ?cb (Some e)] else [])"])
         simp
  qed
  from step srv obtain r ta wa where sock: "try_calls [Socket] tape w = Some (r, ta, wa)"
    by (auto simp: run_begin_def Let_def split: option.splits)
  from try_calls_setup [OF sock] obtain pre1 where
    wa: "wa = w\<lparr>trace := trace w @ pre1\<rparr>" and q1: "callbacks pre1 = []"
      "filter is_accept pre1 = []" "raised pre1 = (case r of None \<Rightarrow> [] | Some e \<Rightarrow> [e])"
    by auto
  show ?thesis
  proof (cases r)
    case (Some e)
    with step sock srv have "conn_failed i e ta wa = Some (t1, w1)"
      by (simp add: run_begin_def Let_def)
    from failed [OF this, of pre1] wa q1 Some show ?thesis by simp
  next
    case None
    let ?s = "sock_count w"
    let ?w2 = "wa\<lparr>sock_count := Suc ?s\<rparr>"
    let ?cs = "[Bind ?s (th_host ?t) (th_port ?t), Listen ?s 3, SetBlocking ?s False]"
    from step sock None srv wa obtain r2 tb wb where
      calls: "try_calls ?cs ta ?w2 = Some (r2, tb, wb)"
      by (auto simp: run_begin_def Let_def new_sock_def split: option.splits)
    from try_calls_setup [OF calls] obtain pre2 where
      wb: "wb = ?w2\<lparr>trace := trace ?w2 @ pre2\<rparr>" and q2: "callbacks pre2 = []"
      "filter is_accept pre2 = []"
      "raised pre2 = (case r2 of None \<Rightarrow> [] | Some e \<Rightarrow> [e])"
      by auto
    show ?thesis
    proof (cases r2)
      case (Some e)
      with step sock None srv wa calls have "conn_failed i e tb wb = Some (t1, w1)"
        by (simp add: run_begin_def Let_def new_sock_def)
      from failed [OF this, of "pre1 @ pre2"] wa wb q1 q2 Some None show ?thesis by simp
    next
      case r2None: None
      with step sock None srv wa calls have w1: "w1 = set_pc i (AtAccept ?s) wb"
        by (simp add: run_begin_def Let_def new_sock_def)
      with wa wb i stop have a1: "is_alive i w1" "th_pc (threads w1 ! i) = AtAccept ?s"
        "stop_event w1"
        by (simp_all add: prim_defs is_alive_def)
      then have "thread_step P i t1 w1 = Some (t1, die i None (emit (Log ThreadExit) w1))"
        by (simp add: thread_step_def accept_iter_def)
      moreover from a1 have "\<not> is_alive i (die i None (emit (Log ThreadExit) w1))"
        by (simp add: prim_defs is_alive_def)
      ultimately have "run P i t1 w1 = Some (t1, die i None (emit (Log ThreadExit) w1))"
        using a1 by (simp add: run_alive run_dead)
      with rest have "w' = die i None (emit (Log ThreadExit) w1)" by simp
      with w1 wa wb have "trace w' = trace w @ (pre1 @ pre2 @ [Log ThreadExit])"
        "client w' = client w"
        by (simp_all add: prim_defs)
      with q1 q2 None r2None show ?thesis
        by (intro exI [of _ "pre1 @ pre2 @ [Log ThreadExit]"]) simp
    qed
  qed
qed

lemma apply_op_stop:
  assumes "apply_op P a tape w = Some (tape', w')" "stop_event w"
  shows "stop_event w'"
proof (cases a)
  case (DoConnect cb)
  with assms show ?thesis by (auto simp: connect_def Let_def emit_def)
next
  case DoDisconnect
  with assms disconnect_done [of P tape w tape' w'] show ?thesis by simp
next
  case DoIsConnected
  with assms show ?thesis by simp
next
  case (DoSend data)
  with assms show ?thesis
    by (auto simp: send_def send_except_def emit_def
          split: option.splits sum.splits list.splits answer.splits if_splits)
next
  case DoRecv
  with assms show ?thesis by (auto simp: recv_def split: list.splits)
next
  case (DoStep i)
  with assms show ?thesis
    by (auto split: if_splits dest!: keeps_thread_step keeps_stop)
qed

lemma exec_stop:
  "exec P ops tape w = Some (tape', w') \<Longrightarrow> stop_event w \<Longrightarrow> stop_event w'"
proof (induction ops arbitrary: tape w)
  case (Cons a ops)
  then show ?case by (auto split: option.splits dest: apply_op_stop)
qed simp

lemma connect_after_disconnect:
  assumes "disconnect P tape w = Some (tape1, w1)"
  shows "stop_event (connect cb w1)
       \<and> listen_thread (connect cb w1) = Some (length (threads w1))
       \<and> th_pc (threads (connect cb w1) ! length (threads w1)) = AtStart
       \<and> th_as_server (threads (connect cb w1) ! length (threads w1)) = as_server w1"
proof -
  from disconnect_done [OF assms] have s: "stop_event w1"
    and d: "case listen_thread w1 of None \<Rightarrow> True | Some i \<Rightarrow> \<not> is_alive i w1"
    by simp_all
  from d have "connect cb w1 =
      emit (Start (length (threads w1)))
        (w1\<lparr>threads := threads w1 @
              [\<lparr>th_as_server = as_server w1, th_host = host w1, th_port = port w1,
                th_callback = cb, th_pc = AtStart, th_died = None\<rparr>],
            listen_thread := Some (length (threads w1))\<rparr>)"
    by (simp add: connect_def Let_def)
  with s show ?thesis by (simp add: emit_def)
qed

text \<open>
  Claim C9, amended. \<open>disconnect\<close> sets the stop event, and no call of the session and
  no step of a thread clears it; a \<open>connect\<close> after it starts a new thread, in the role
  of the session, with the event still set. A listener thread started while it is set never calls
  \<open>accept\<close> and never stores a socket on the session; at most one call of its set-up
  (socket, bind, listen, setblocking) raises; if what it raises is an Exception the
  callback is invoked once with it, and otherwise the callback is not invoked.
\<close>

theorem stop_event_sticks:
  "(disconnect P tape w = Some (tape1, w1) \<longrightarrow>
        stop_event w1 \<and> stop_event (connect cb w1)
        \<and> listen_thread (connect cb w1) = Some (length (threads w1))
        \<and> th_pc (threads (connect cb w1) ! length (threads w1)) = AtStart
        \<and> th_as_server (threads (connect cb w1) ! length (threads w1)) = as_server w1)
   \<and> (stop_event w \<and> exec P ops tape w = Some (tape2, w2) \<longrightarrow> stop_event w2)
   \<and> (stop_event w \<and> i < length (threads w) \<and> th_pc (threads w ! i) = AtStart
        \<and> th_as_server (threads w ! i) \<and> run P i tape w = Some (tape3, w3) \<longrightarrow>
        (\<exists>evs. trace w3 = trace w @ evs \<and> filter is_accept evs = [] \<and> client w3 = client w
           \<and> length (raised evs) \<le> 1
           \<and> callbacks evs =
               map (\<lambda>e. (th_callback (threads w ! i), Some e))
                 (filter is_Exception (raised evs))))"
proof (rule conjI [OF _ conjI]; rule impI)
  assume d: "disconnect P tape w = Some (tape1, w1)"
  from disconnect_done [OF d] have "stop_event w1" by simp
  with connect_after_disconnect [OF d, of cb]
  show "stop_event w1 \<and> stop_event (connect cb w1)
        \<and> listen_thread (connect cb w1) = Some (length (threads w1))
        \<and> th_pc (threads (connect cb w1) ! length (threads w1)) = AtStart
        \<and> th_as_server (threads (connect cb w1) ! length (threads w1)) = as_server w1"
    by simp
next
  assume "stop_event w \<and> exec P ops tape w = Some (tape2, w2)"
  then show "stop_event w2" by (auto dest: exec_stop)
next
  assume "stop_event w \<and> i < length (threads w) \<and> th_pc (threads w ! i) = AtStart
        \<and> th_as_server (threads w ! i) \<and> run P i tape w = Some (tape3, w3)"
  then show "\<exists>evs. trace w3 = trace w @ evs \<and> filter is_accept evs = [] \<and> client w3 = client w
           \<and> length (raised evs) \<le> 1
           \<and> callbacks evs =
               map (\<lambda>e. (th_callback (threads w ! i), Some e))
                 (filter is_Exception (raised evs))"
    using listener_stopped [of w i P tape tape3 w3] by blast
qed

lemma stopped_listener_reached:
  "exec int_platform [DoDisconnect, DoConnect 0] [] (init int_platform True None None) =
     Some ([], stopped_listener)"
  by (simp add: eval_defs stopped_listener_def)

text \<open>
  Claim C9, as stated: after \<open>disconnect\<close>, the thread of every later \<open>connect\<close>
  exits, in the listener role, without invoking the callback. It does invoke it when the
  set-up fails: here \<open>bind\<close> raises an OSError, and the callback is called with it.
\<close>

theorem listener_after_disconnect_counterexample:
  "exec int_platform [DoDisconnect, DoConnect 0] [] (init int_platform True None None) =
     Some ([], stopped_listener)
   \<and> stop_event stopped_listener
   \<and> run int_platform 0 [Returns [], Raises OtherOSError, Returns []] stopped_listener =
       Some ([], stopped_listener
          \<lparr>threads := [(threads stopped_listener ! 0)\<lparr>th_pc := Terminated\<rparr>], sock_count := 1,
            trace := [Start 0, Called Socket None,
                      Called (Bind 0 ''pc'' 11111) (Some OtherOSError),
                      Log (ConnectFailed OtherOSError), Callback 0 (Some OtherOSError)]\<rparr>)"
  by (simp add: eval_defs stopped_listener_def)

theorem stop_event_sticks_witness:
  "disconnect int_platform [] (init int_platform True None None) =
      Some ([], (init int_platform True None None)\<lparr>stop_event := True\<rparr>)
   \<and> stop_event stopped_listener
   \<and> exec int_platform [DoConnect 1, DoStep 0, DoRecv] [Returns [], Returns [], Returns [], Returns []]
        stopped_listener =
       Some ([], stopped_listener
          \<lparr>threads := [(threads stopped_listener ! 0)\<lparr>th_pc := AtAccept 0\<rparr>], sock_count := 1,
            trace := [Start 0, Called Socket None, Called (Bind 0 ''pc'' 11111) None,
                      Called (Listen 0 3) None, Called (SetBlocking 0 False) None]\<rparr>)
   \<and> run int_platform 0 [Returns [], Returns [], Returns [], Returns []] stopped_listener =
       Some ([], stopped_listener
          \<lparr>threads := [(threads stopped_listener ! 0)\<lparr>th_pc := Terminated\<rparr>], sock_count := 1,
            trace := [Start 0, Called Socket None, Called (Bind 0 ''pc'' 11111) None,
                      Called (Listen 0 3) None, Called (SetBlocking 0 False) None,
                      Log ThreadExit]\<rparr>)"
proof -
  let ?W2 = "stopped_listener
          \<lparr>threads := [(threads stopped_listener ! 0)\<lparr>th_pc := AtAccept 0\<rparr>], sock_count := 1,
            trace := [Start 0, Called Socket None, Called (Bind 0 ''pc'' 11111) None,
                      Called (Listen 0 3) None, Called (SetBlocking 0 False) None]\<rparr>"
  let ?W3 = "stopped_listener
          \<lparr>threads := [(threads stopped_listener ! 0)\<lparr>th_pc := Terminated\<rparr>], sock_count := 1,
            trace := [Start 0, Called Socket None, Called (Bind 0 ''pc'' 11111) None,
                      Called (Listen 0 3) None, Called (SetBlocking 0 False) None,
                      Log ThreadExit]\<rparr>"
  have a: "disconnect int_platform [] (init int_platform True None None) =
      Some ([], (init int_platform True None None)\<lparr>stop_event := True\<rparr>)"
    by (simp add: eval_defs)
  have b: "stop_event stopped_listener" "0 < length (threads stopped_listener)"
    "th_pc (threads stopped_listener ! 0) = AtStart"
    "th_as_server (threads stopped_listener ! 0)"
    by (simp_all add: stopped_listener_def)
  have c: "exec int_platform [DoConnect 1, DoStep 0, DoRecv]
        [Returns [], Returns [], Returns [], Returns []] stopped_listener = Some ([], ?W2)"
    by (simp add: eval_defs stopped_listener_def recv_def)
  have d: "run int_platform 0 [Returns [], Returns [], Returns [], Returns []] stopped_listener =
       Some ([], ?W3)"
    by (simp add: eval_defs stopped_listener_def)
  from stop_event_sticks [of int_platform "[Returns [], Returns [], Returns [], Returns []]"
      stopped_listener "[]" ?W3 1 "[DoConnect 1, DoStep 0, DoRecv]" "[]" ?W2 0 "[]" ?W3] b c
  have "stop_event ?W2" by blast
  with a b c d show ?thesis by blast
qed

section \<open>The default address\<close>

lemma addr_inv_init: "addr_inv (gethostname P, 11111) (init P srv None None)"
  by (simp add: addr_inv_def init_def)

lemma addr_inv_connect: "addr_inv a w \<Longrightarrow> addr_inv a (connect cb w)"
  by (auto simp: addr_inv_def connect_def Let_def emit_def)

lemma addr_inv_keeps:
  assumes k: "keeps i w w'" and i: "i < length (threads w)" and inv: "addr_inv a w"
  shows "addr_inv a w'"
proof -
  from inv i have ti: "(th_host (threads w ! i), th_port (threads w ! i)) = a"
    by (simp add: addr_inv_def list_all_length)
  have "(th_host (threads w' ! j), th_port (threads w' ! j)) = a" if "j < length (threads w')" for j
  proof (cases "j = i")
    case True
    with k ti show ?thesis by (simp add: keeps_def)
  next
    case False
    with k that inv show ?thesis by (simp add: keeps_def addr_inv_def list_all_length)
  qed
  then have "list_all (\<lambda>t. (th_host t, th_port t) = a) (threads w')"
    by (simp add: list_all_length)
  moreover from k ti inv have "list_all (addr_ok a) (trace w')"
    by (auto simp: keeps_def addr_inv_def)
  moreover from k inv have "(host w', port w') = a" by (simp add: keeps_def addr_inv_def)
  ultimately show ?thesis by (simp add: addr_inv_def)
qed

lemma addr_inv_fields:
  "threads w' = threads w \<Longrightarrow> trace w' = trace w \<Longrightarrow> host w' = host w \<Longrightarrow>
     port w' = port w \<Longrightarrow> addr_inv a w' = addr_inv a w"
  by (simp add: addr_inv_def)

lemma addr_inv_run:
  assumes "run P i tape w = Some (tape', w')" "addr_inv a w"
  shows "addr_inv a w'"
proof (cases "is_alive i w")
  case True
  then have "i < length (threads w)" by (simp add: is_alive_def)
  from addr_inv_keeps [OF keeps_run [OF assms(1)] this assms(2)] show ?thesis .
next
  case False
  with assms show ?thesis by (simp add: run_dead)
qed

lemma addr_inv_apply_op:
  assumes "apply_op P op tape w = Some (tape', w')" "addr_inv a w"
  shows "addr_inv a w'"
proof (cases op)
  case (DoConnect cb)
  with assms show ?thesis by (auto intro: addr_inv_connect)
next
  case DoDisconnect
  have "addr_inv a (close_held (w\<lparr>stop_event := True\<rparr>)) = addr_inv a w"
    by (rule addr_inv_fields) (simp_all add: close_held_def close_sock_def split: option.splits)
  with assms DoDisconnect show ?thesis
    by (auto simp: disconnect_alt split: option.splits dest: addr_inv_run)
next
  case DoIsConnected
  with assms show ?thesis by simp
next
  case (DoSend data)
  with assms show ?thesis
    by (auto simp: send_def send_except_def emit_def addr_inv_def
          split: option.splits sum.splits list.splits answer.splits if_splits)
next
  case DoRecv
  with assms show ?thesis by (auto simp: recv_def addr_inv_def split: list.splits)
next
  case (DoStep i)
  with assms show ?thesis
    by (auto simp: is_alive_def split: if_splits dest: keeps_thread_step addr_inv_keeps)
qed

lemma addr_inv_exec:
  "exec P ops tape w = Some (tape', w') \<Longrightarrow> addr_inv a w \<Longrightarrow> addr_inv a w'"
proof (induction ops arbitrary: tape w)
  case (Cons op ops)
  then show ?case by (auto split: option.splits dest: addr_inv_apply_op)
qed simp

lemma keeps_trace: "keeps i w w' \<Longrightarrow> set (trace w) \<subseteq> set (trace w')"
  by (auto simp: keeps_def)

lemma first_call_made:
  assumes step: "run_begin i (Returns b # a # tape) w = Some (t1, w1)"
  shows "Called (if th_as_server (threads w ! i)
                 then Bind (sock_count w) (th_host (threads w ! i)) (th_port (threads w ! i))
                 else Connect (sock_count w) (th_host (threads w ! i)) (th_port (threads w ! i)))
           (answer_exn a) \<in> set (trace w1)"
proof -
  let ?t = "threads w ! i"
  let ?s = "sock_count w"
  let ?w2 = "(emit (Called Socket None) w)\<lparr>sock_count := Suc ?s\<rparr>"
  let ?c = "if th_as_server ?t then Bind ?s (th_host ?t) (th_port ?t)
            else Connect ?s (th_host ?t) (th_port ?t)"
  let ?w3 = "emit (Called ?c (answer_exn a)) ?w2"
  have here: "Called ?c (answer_exn a) \<in> set (trace ?w3)" by (simp add: emit_def)
  have "keeps i ?w3 w1"
  proof (cases a)
    case (Raises e)
    with step have "conn_failed i e tape ?w3 = Some (t1, w1)"
      by (auto simp: run_begin_def Let_def new_sock_def emit_def split: if_splits)
    from keeps_conn_failed [OF this keeps_refl] show ?thesis .
  next
    case (Returns b2)
    show ?thesis
    proof (cases "th_as_server ?t")
      case True
      with step Returns obtain r tb wb where
        calls: "try_calls [Listen ?s 3, SetBlocking ?s False] tape ?w3 = Some (r, tb, wb)"
        by (auto simp: run_begin_def Let_def new_sock_def emit_def
              split: option.splits if_splits)
      from keeps_try_calls [OF calls keeps_refl] have kb: "keeps i ?w3 wb" by simp
      from step Returns True calls have
        "(\<exists>e. conn_failed i e tb wb = Some (t1, w1)) \<or> w1 = set_pc i (AtAccept ?s) wb"
        by (cases r) (auto simp: run_begin_def Let_def new_sock_def emit_def split: if_splits)
      with kb show ?thesis by (auto intro: keeps_conn_failed keeps_set_pc)
    next
      case False
      with step Returns have "established i ?s tape ?w3 = Some (t1, w1)"
        by (auto simp: run_begin_def Let_def new_sock_def emit_def split: if_splits)
      from keeps_established [OF this keeps_refl] show ?thesis .
    qed
  qed
  from keeps_trace [OF this] here show ?thesis by blast
qed



end
